theory Spec2Isabelle
  imports Main "HOL-Library.Word"
begin

section \<open>The reader-writer lock of \<open>read_write_lock.h\<close> as a transition system\<close>

text \<open>
  The class \<open>read_write_lock\<close> has two atomic counters, two mutexes and two condition
  variables. Its four operations are run by concurrent threads, so each operation is cut
  at its accesses to the shared objects: every access is one atomic step of one thread,
  and an execution is an interleaving of such steps. The atomics are used with their
  default (sequentially consistent) ordering, for which interleaving is the semantics.

  \<^item> \<open>std::atomic_int reader_count\<close> is a 32-bit word, read as two's complement by the
    signed comparisons \<open><s\<close> and \<open>\<le>s\<close>; \<open>std::atomic_char writer_waiting\<close> is an 8-bit
    word. Atomic increments and decrements wrap around.
  \<^item> A \<open>std::mutex\<close> is the thread that owns it, if any. Locking an owned mutex blocks:
    the step is not enabled.
  \<^item> A thread sleeping in \<open>condition_variable::wait\<close> sits at a program point of its
    own; \<open>notify_all\<close> moves every such thread on. A sleeping thread may also wake
    spuriously, as the C++ standard allows. \<open>wait(lock, pred)\<close> is the loop
    \<open>while (!pred()) wait(lock)\<close>.
  \<^item> Threads are numbered. A thread runs one operation at a time and follows the caller
    contract: it calls \<open>end_read\<close> only after its \<open>start_read\<close> has returned, and
    \<open>end_write\<close> only after its \<open>start_write\<close> has returned.
\<close>

type_synonym tid = nat

datatype opname = Start_read | End_read | Start_write | End_write

datatype mutex = Read_mutex | Write_mutex

datatype condvar = Waiting_to_read | Waiting_to_write

datatype counter = Reader_count | Writer_waiting

text \<open>
  The program points of a thread. \<open>Idle\<close>: outside every operation, holding nothing.
  \<open>Reading\<close>: \<open>start_read\<close> has returned and \<open>end_read\<close> has not been called.
  \<open>Writing\<close>: \<open>start_write\<close> has returned and \<open>end_write\<close> has not been called.
  The others name the next statement of the operation the thread is in.
\<close>

datatype pc =
    Idle
  | SR_check    \<comment> \<open>line 46-47: \<open>writer_is_writing = writer_is_not_writing()\<close>, and the \<open>if\<close>\<close>
  | SR_lock     \<comment> \<open>line 48: \<open>unique_lock lock(read_mutex)\<close>\<close>
  | SR_pred     \<comment> \<open>line 49: the predicate of \<open>waiting_to_read.wait\<close>\<close>
  | SR_block    \<comment> \<open>line 49: \<open>wait(lock)\<close> releases the mutex and sleeps\<close>
  | SR_wait     \<comment> \<open>line 49: asleep on \<open>waiting_to_read\<close>\<close>
  | SR_relock   \<comment> \<open>line 49: woken, taking \<open>read_mutex\<close> again\<close>
  | SR_unlock   \<comment> \<open>line 50: the destructor of \<open>lock\<close>\<close>
  | SR_inc      \<comment> \<open>line 51: \<open>reader_count++\<close>\<close>
  | Reading
  | ER_dec      \<comment> \<open>line 56: \<open>reader_count--\<close>\<close>
  | ER_notify   \<comment> \<open>line 57: \<open>waiting_to_write.notify_all()\<close>\<close>
  | SW_lock     \<comment> \<open>line 68: \<open>unique_lock lock(write_mutex)\<close>\<close>
  | SW_inc      \<comment> \<open>line 69: \<open>writer_waiting += 1\<close>\<close>
  | SW_check    \<comment> \<open>line 70: \<open>if (reader_count > 0)\<close>\<close>
  | SW_pred     \<comment> \<open>line 71: the predicate \<open>reader_count <= 0\<close> of \<open>waiting_to_write.wait\<close>\<close>
  | SW_block    \<comment> \<open>line 71: \<open>wait(lock)\<close> releases the mutex and sleeps\<close>
  | SW_wait     \<comment> \<open>line 71: asleep on \<open>waiting_to_write\<close>\<close>
  | SW_relock   \<comment> \<open>line 71: woken, taking \<open>write_mutex\<close> again\<close>
  | SW_release  \<comment> \<open>line 73: \<open>lock.release()\<close>, the mutex stays locked\<close>
  | Writing
  | EW_dec          \<comment> \<open>line 82: \<open>writer_waiting -= 1\<close>\<close>
  | EW_notify_write \<comment> \<open>line 83: \<open>waiting_to_write.notify_all()\<close>\<close>
  | EW_unlock       \<comment> \<open>line 84: \<open>write_mutex.unlock()\<close>\<close>
  | EW_notify_read  \<comment> \<open>line 85: \<open>waiting_to_read.notify_all()\<close>\<close>

record lock_state =
  reader_count :: "32 word"
  writer_waiting :: "8 word"
  read_mutex :: "tid option"
  write_mutex :: "tid option"
  pcs :: "tid \<Rightarrow> pc"

text \<open>The constructor, line 38: no readers, no writers, nothing locked, nobody inside.\<close>

definition init :: lock_state where
  "init = \<lparr>reader_count = 0, writer_waiting = 0, read_mutex = None, write_mutex = None,
           pcs = (\<lambda>_. Idle)\<rparr>"

text \<open>The member constant of line 103.\<close>

definition NOT_WRITING :: "8 word" where
  "NOT_WRITING = 0"

text \<open>
  \<open>obj.compare_exchange_strong(expected, desired)\<close> on an atomic holding \<open>obj\<close>: the
  result is whether the exchange happened, the atomic's new value and the new value of
  the reference argument \<open>expected\<close>.
\<close>

definition compare_exchange_strong :: "'a \<Rightarrow> 'a \<Rightarrow> 'a \<Rightarrow> bool \<times> 'a \<times> 'a" where
  "compare_exchange_strong obj expected desired =
     (if obj = expected then (True, desired, expected) else (False, obj, obj))"

text \<open>
  Lines 89-96. The argument is the value of \<open>writer_waiting\<close>; the result is the returned
  boolean and the value \<open>writer_waiting\<close> has afterwards.
\<close>

definition writer_is_not_writing :: "8 word \<Rightarrow> bool \<times> 8 word" where
  "writer_is_not_writing ww =
     (let writer_status = NOT_WRITING;
          new_writer_status = NOT_WRITING;
          (exchanged, ww', writer_status') =
             compare_exchange_strong ww writer_status new_writer_status
      in (writer_status' = NOT_WRITING, ww'))"

text \<open>
  What the specification says the function amounts to: an atomic load of the counter
  followed by a test for zero. The counter is left as it is.
\<close>

definition load_and_test_zero :: "8 word \<Rightarrow> bool \<times> 8 word" where
  "load_and_test_zero ww = (ww = 0, ww)"

text \<open>
  The condition of line 47 compares a \<open>bool\<close> with the \<open>char\<close> constant \<open>NOT_WRITING\<close>:
  both operands are promoted to \<open>int\<close>.
\<close>

definition differs_from_NOT_WRITING :: "bool \<Rightarrow> bool" where
  "differs_from_NOT_WRITING b \<longleftrightarrow> (of_bool b :: int) \<noteq> sint NOT_WRITING"

text \<open>\<open>notify_all\<close> on a condition variable: every thread asleep on it is woken.\<close>

definition notify_all :: "condvar \<Rightarrow> (tid \<Rightarrow> pc) \<Rightarrow> (tid \<Rightarrow> pc)" where
  "notify_all c p =
     (case c of
        Waiting_to_read \<Rightarrow> (\<lambda>u. if p u = SR_wait then SR_relock else p u)
      | Waiting_to_write \<Rightarrow> (\<lambda>u. if p u = SW_wait then SW_relock else p u))"

definition goto :: "tid \<Rightarrow> pc \<Rightarrow> lock_state \<Rightarrow> lock_state" where
  "goto t p s = s\<lparr>pcs := (pcs s)(t := p)\<rparr>"

text \<open>
  What a step does to the shared objects, as a label: the steps of a thread are read off
  an execution by their labels.
\<close>

datatype effect =
    Call opname
  | Writer_test bool       \<comment> \<open>\<open>writer_is_not_writing()\<close> and what it returned\<close>
  | Readers_positive bool  \<comment> \<open>\<open>reader_count > 0\<close> of line 70 and its value\<close>
  | Readers_drained bool   \<comment> \<open>\<open>reader_count <= 0\<close> of line 71 and its value\<close>
  | Lock mutex
  | Unlock mutex
  | Block condvar          \<comment> \<open>\<open>wait(lock)\<close>: the mutex is released, the thread sleeps\<close>
  | Wakeup                 \<comment> \<open>a spurious wake-up\<close>
  | Incr counter
  | Decr counter
  | Notify_all condvar
  | Detach                 \<comment> \<open>\<open>lock.release()\<close>\<close>

text \<open>
  What the scheduler and the client choose: a thread outside an operation begins one
  (\<open>end_read\<close> only after its \<open>start_read\<close> has returned, \<open>end_write\<close> only after its
  \<open>start_write\<close> has returned: the caller contract), a thread inside an operation
  executes its next statement, a sleeping thread wakes spuriously.
\<close>

datatype act = Begin opname | Exec | Spurious

fun exec :: "tid \<Rightarrow> pc \<Rightarrow> act \<Rightarrow> lock_state \<Rightarrow> (effect \<times> lock_state) option" where
  "exec t Idle a s =
     (case a of
        Begin Start_read \<Rightarrow> Some (Call Start_read, goto t SR_check s)
      | Begin Start_write \<Rightarrow> Some (Call Start_write, goto t SW_lock s)
      | _ \<Rightarrow> None)"
| "exec t Reading a s =
     (case a of Begin End_read \<Rightarrow> Some (Call End_read, goto t ER_dec s) | _ \<Rightarrow> None)"
| "exec t Writing a s =
     (case a of Begin End_write \<Rightarrow> Some (Call End_write, goto t EW_dec s) | _ \<Rightarrow> None)"
| "exec t SR_check a s =
     (case a of
        Exec \<Rightarrow>
          (let (writer_is_writing, ww) = writer_is_not_writing (writer_waiting s)
           in Some (Writer_test writer_is_writing,
                    goto t (if differs_from_NOT_WRITING writer_is_writing then SR_lock else SR_inc)
                      (s\<lparr>writer_waiting := ww\<rparr>)))
      | _ \<Rightarrow> None)"
| "exec t SR_lock a s =
     (case a of
        Exec \<Rightarrow>
          (if read_mutex s = None
           then Some (Lock Read_mutex, goto t SR_pred (s\<lparr>read_mutex := Some t\<rparr>))
           else None)
      | _ \<Rightarrow> None)"
| "exec t SR_pred a s =
     (case a of
        Exec \<Rightarrow>
          (let (ok, ww) = writer_is_not_writing (writer_waiting s)
           in Some (Writer_test ok,
                    goto t (if ok then SR_unlock else SR_block) (s\<lparr>writer_waiting := ww\<rparr>)))
      | _ \<Rightarrow> None)"
| "exec t SR_block a s =
     (case a of
        Exec \<Rightarrow> Some (Block Waiting_to_read, goto t SR_wait (s\<lparr>read_mutex := None\<rparr>))
      | _ \<Rightarrow> None)"
| "exec t SR_wait a s =
     (case a of Spurious \<Rightarrow> Some (Wakeup, goto t SR_relock s) | _ \<Rightarrow> None)"
| "exec t SR_relock a s =
     (case a of
        Exec \<Rightarrow>
          (if read_mutex s = None
           then Some (Lock Read_mutex, goto t SR_pred (s\<lparr>read_mutex := Some t\<rparr>))
           else None)
      | _ \<Rightarrow> None)"
| "exec t SR_unlock a s =
     (case a of
        Exec \<Rightarrow> Some (Unlock Read_mutex, goto t SR_inc (s\<lparr>read_mutex := None\<rparr>))
      | _ \<Rightarrow> None)"
| "exec t SR_inc a s =
     (case a of
        Exec \<Rightarrow> Some (Incr Reader_count, goto t Reading (s\<lparr>reader_count := reader_count s + 1\<rparr>))
      | _ \<Rightarrow> None)"
| "exec t ER_dec a s =
     (case a of
        Exec \<Rightarrow> Some (Decr Reader_count, goto t ER_notify (s\<lparr>reader_count := reader_count s - 1\<rparr>))
      | _ \<Rightarrow> None)"
| "exec t ER_notify a s =
     (case a of
        Exec \<Rightarrow> Some (Notify_all Waiting_to_write,
                      goto t Idle (s\<lparr>pcs := notify_all Waiting_to_write (pcs s)\<rparr>))
      | _ \<Rightarrow> None)"
| "exec t SW_lock a s =
     (case a of
        Exec \<Rightarrow>
          (if write_mutex s = None
           then Some (Lock Write_mutex, goto t SW_inc (s\<lparr>write_mutex := Some t\<rparr>))
           else None)
      | _ \<Rightarrow> None)"
| "exec t SW_inc a s =
     (case a of
        Exec \<Rightarrow> Some (Incr Writer_waiting,
                      goto t SW_check (s\<lparr>writer_waiting := writer_waiting s + 1\<rparr>))
      | _ \<Rightarrow> None)"
| "exec t SW_check a s =
     (case a of
        Exec \<Rightarrow> Some (Readers_positive (0 <s reader_count s),
                      goto t (if 0 <s reader_count s then SW_pred else SW_release) s)
      | _ \<Rightarrow> None)"
| "exec t SW_pred a s =
     (case a of
        Exec \<Rightarrow> Some (Readers_drained (reader_count s \<le>s 0),
                      goto t (if reader_count s \<le>s 0 then SW_release else SW_block) s)
      | _ \<Rightarrow> None)"
| "exec t SW_block a s =
     (case a of
        Exec \<Rightarrow> Some (Block Waiting_to_write, goto t SW_wait (s\<lparr>write_mutex := None\<rparr>))
      | _ \<Rightarrow> None)"
| "exec t SW_wait a s =
     (case a of Spurious \<Rightarrow> Some (Wakeup, goto t SW_relock s) | _ \<Rightarrow> None)"
| "exec t SW_relock a s =
     (case a of
        Exec \<Rightarrow>
          (if write_mutex s = None
           then Some (Lock Write_mutex, goto t SW_pred (s\<lparr>write_mutex := Some t\<rparr>))
           else None)
      | _ \<Rightarrow> None)"
| "exec t SW_release a s =
     (case a of Exec \<Rightarrow> Some (Detach, goto t Writing s) | _ \<Rightarrow> None)"
| "exec t EW_dec a s =
     (case a of
        Exec \<Rightarrow> Some (Decr Writer_waiting,
                      goto t EW_notify_write (s\<lparr>writer_waiting := writer_waiting s - 1\<rparr>))
      | _ \<Rightarrow> None)"
| "exec t EW_notify_write a s =
     (case a of
        Exec \<Rightarrow> Some (Notify_all Waiting_to_write,
                      goto t EW_unlock (s\<lparr>pcs := notify_all Waiting_to_write (pcs s)\<rparr>))
      | _ \<Rightarrow> None)"
| "exec t EW_unlock a s =
     (case a of
        Exec \<Rightarrow> Some (Unlock Write_mutex, goto t EW_notify_read (s\<lparr>write_mutex := None\<rparr>))
      | _ \<Rightarrow> None)"
| "exec t EW_notify_read a s =
     (case a of
        Exec \<Rightarrow> Some (Notify_all Waiting_to_read,
                      goto t Idle (s\<lparr>pcs := notify_all Waiting_to_read (pcs s)\<rparr>))
      | _ \<Rightarrow> None)"

text \<open>One step of thread \<open>t\<close>; \<open>None\<close> when the step is not enabled (the thread is blocked).\<close>

definition step :: "tid \<Rightarrow> act \<Rightarrow> lock_state \<Rightarrow> (effect \<times> lock_state) option" where
  "step t a s = exec t (pcs s t) a s"

text \<open>A schedule run from a state: the labelled steps, and the state reached.\<close>

fun run :: "(tid \<times> act) list \<Rightarrow> lock_state \<Rightarrow> ((tid \<times> effect) list \<times> lock_state) option" where
  "run [] s = Some ([], s)"
| "run ((t, a) # sched) s =
     (case step t a s of
        None \<Rightarrow> None
      | Some (e, s') \<Rightarrow>
          (case run sched s' of
             None \<Rightarrow> None
           | Some (es, s'') \<Rightarrow> Some ((t, e) # es, s'')))"

inductive reachable :: "lock_state \<Rightarrow> bool" where
  reachable_init: "reachable init"
| reachable_step: "reachable s \<Longrightarrow> step t a s = Some (e, s') \<Longrightarrow> reachable s'"

text \<open>The effects of one thread in an execution.\<close>

definition effects_of :: "tid \<Rightarrow> (tid \<times> effect) list \<Rightarrow> effect list" where
  "effects_of t es = map snd (filter (\<lambda>x. fst x = t) es)"

section \<open>Notions the properties are stated with\<close>

text \<open>
  A thread owns \<open>write_mutex\<close> from the statement after it locked it until it unlocks it
  or goes to sleep in \<open>wait\<close>.
\<close>

definition holds_write_mutex :: "pc \<Rightarrow> bool" where
  "holds_write_mutex p \<longleftrightarrow>
     p \<in> {SW_inc, SW_check, SW_pred, SW_block, SW_release, Writing, EW_dec, EW_notify_write,
          EW_unlock}"

definition write_mutex_inv :: "lock_state \<Rightarrow> bool" where
  "write_mutex_inv s \<longleftrightarrow> (\<forall>t. holds_write_mutex (pcs s t) \<longrightarrow> write_mutex s = Some t)"

text \<open>
  A thread holds write admission from the return of its \<open>start_write\<close> until its
  \<open>end_write\<close> unlocks \<open>write_mutex\<close>.
\<close>

definition write_admitted :: "pc \<Rightarrow> bool" where
  "write_admitted p \<longleftrightarrow> p = Writing \<or> p = EW_dec \<or> p = EW_notify_write \<or> p = EW_unlock"

text \<open>
  The readers \<open>reader_count\<close> counts: the threads between the increment of \<open>start_read\<close>
  and the decrement of \<open>end_read\<close>.
\<close>

definition counted :: "pc \<Rightarrow> bool" where
  "counted p \<longleftrightarrow> p = Reading \<or> p = ER_dec"

definition active_readers :: "lock_state \<Rightarrow> tid set" where
  "active_readers s = {t. counted (pcs s t)}"

definition reader_count_inv :: "lock_state \<Rightarrow> bool" where
  "reader_count_inv s \<longleftrightarrow>
     finite (active_readers s) \<and> reader_count s = of_nat (card (active_readers s))"

text \<open>
  The writers \<open>writer_waiting\<close> counts: the threads between the increment of
  \<open>start_write\<close> and the decrement of \<open>end_write\<close>, pending or writing.
\<close>

definition pending :: "pc \<Rightarrow> bool" where
  "pending p \<longleftrightarrow>
     p = SW_check \<or> p = SW_pred \<or> p = SW_block \<or> p = SW_wait \<or> p = SW_relock
     \<or> p = SW_release \<or> p = Writing \<or> p = EW_dec"

definition pending_writers :: "lock_state \<Rightarrow> tid set" where
  "pending_writers s = {t. pending (pcs s t)}"

definition writer_waiting_inv :: "lock_state \<Rightarrow> bool" where
  "writer_waiting_inv s \<longleftrightarrow>
     finite (pending_writers s) \<and> writer_waiting s = of_nat (card (pending_writers s))"

subsection \<open>One thread running an operation without interruption\<close>

text \<open>\<open>start_read\<close> with no writer pending: the call, lines 46-47, 48, 49, 50 and 51.\<close>

definition start_read_alone :: "tid \<Rightarrow> (tid \<times> act) list" where
  "start_read_alone t =
     [(t, Begin Start_read), (t, Exec), (t, Exec), (t, Exec), (t, Exec), (t, Exec)]"

text \<open>\<open>start_read\<close> with a writer pending: the call, lines 46-47 and 51.\<close>

definition start_read_past_writer :: "tid \<Rightarrow> (tid \<times> act) list" where
  "start_read_past_writer t = [(t, Begin Start_read), (t, Exec), (t, Exec)]"

definition end_read_alone :: "tid \<Rightarrow> (tid \<times> act) list" where
  "end_read_alone t = [(t, Begin End_read), (t, Exec), (t, Exec)]"

definition end_read_effects :: "effect list" where
  "end_read_effects = [Call End_read, Decr Reader_count, Notify_all Waiting_to_write]"

text \<open>\<open>start_write\<close> with no reader inside: the call, lines 68, 69, 70 and 73.\<close>

definition start_write_alone :: "tid \<Rightarrow> (tid \<times> act) list" where
  "start_write_alone t = [(t, Begin Start_write), (t, Exec), (t, Exec), (t, Exec), (t, Exec)]"

definition start_write_effects :: "effect list" where
  "start_write_effects =
     [Call Start_write, Lock Write_mutex, Incr Writer_waiting, Readers_positive False, Detach]"

text \<open>\<open>start_write\<close> with a reader inside, up to the sleep: the call, lines 68-70 and 71.\<close>

definition start_write_blocked :: "tid \<Rightarrow> (tid \<times> act) list" where
  "start_write_blocked t =
     [(t, Begin Start_write), (t, Exec), (t, Exec), (t, Exec), (t, Exec), (t, Exec)]"

definition end_write_alone :: "tid \<Rightarrow> (tid \<times> act) list" where
  "end_write_alone t = [(t, Begin End_write), (t, Exec), (t, Exec), (t, Exec), (t, Exec)]"

definition end_write_effects :: "effect list" where
  "end_write_effects =
     [Call End_write, Decr Writer_waiting, Notify_all Waiting_to_write, Unlock Write_mutex,
      Notify_all Waiting_to_read]"

definition write_cycle :: "tid \<Rightarrow> (tid \<times> act) list" where
  "write_cycle t = start_write_alone t @ end_write_alone t"

subsection \<open>What is left of an operation at a program point\<close>

text \<open>The effects \<open>end_write\<close> still has to produce, from the call on.\<close>

fun end_write_rest :: "pc \<Rightarrow> effect list" where
  "end_write_rest Writing = end_write_effects"
| "end_write_rest EW_dec = drop 1 end_write_effects"
| "end_write_rest EW_notify_write = drop 2 end_write_effects"
| "end_write_rest EW_unlock = drop 3 end_write_effects"
| "end_write_rest EW_notify_read = drop 4 end_write_effects"
| "end_write_rest _ = []"

text \<open>
  A list of effects ends with a test of \<open>reader_count\<close> that found no reader (line 70
  false, or the predicate of line 71 true), followed by the \<open>lock.release()\<close> of line 73.
\<close>

definition ends_drained :: "effect list \<Rightarrow> bool" where
  "ends_drained xs \<longleftrightarrow>
     (case rev xs of
        d # b # _ \<Rightarrow> d = Detach \<and> (b = Readers_positive False \<or> b = Readers_drained True)
      | _ \<Rightarrow> False)"

text \<open>The effects that take \<open>start_write\<close> from a program point to its return.\<close>

fun start_write_rest :: "pc \<Rightarrow> effect list \<Rightarrow> bool" where
  "start_write_rest SW_lock xs =
     (case xs of
        l # i # ys \<Rightarrow> l = Lock Write_mutex \<and> i = Incr Writer_waiting \<and> ends_drained ys
      | _ \<Rightarrow> False)"
| "start_write_rest SW_inc xs =
     (case xs of i # ys \<Rightarrow> i = Incr Writer_waiting \<and> ends_drained ys | _ \<Rightarrow> False)"
| "start_write_rest SW_check xs = ends_drained xs"
| "start_write_rest SW_pred xs = ends_drained xs"
| "start_write_rest SW_block xs = ends_drained xs"
| "start_write_rest SW_wait xs = ends_drained xs"
| "start_write_rest SW_relock xs = ends_drained xs"
| "start_write_rest SW_release xs = (xs = [Detach])"
| "start_write_rest Writing xs = (xs = [])"
| "start_write_rest _ xs = True"

subsection \<open>Some states\<close>

text \<open>Threads \<open>0, \<dots>, n - 1\<close> have returned from \<open>start_read\<close>; nobody else is inside.\<close>

definition readers_inside :: "nat \<Rightarrow> lock_state" where
  "readers_inside n =
     \<lparr>reader_count = of_nat n, writer_waiting = 0, read_mutex = None, write_mutex = None,
      pcs = (\<lambda>t. if t < n then Reading else Idle)\<rparr>"

text \<open>
  Thread 0 has returned from \<open>start_read\<close>; threads \<open>1, \<dots>, n\<close> are in \<open>start_write\<close>,
  asleep on \<open>waiting_to_write\<close> until the reader leaves.
\<close>

definition writers_pending :: "nat \<Rightarrow> lock_state" where
  "writers_pending n =
     \<lparr>reader_count = 1, writer_waiting = of_nat n, read_mutex = None, write_mutex = None,
      pcs = (\<lambda>t. if t = 0 then Reading else if t \<le> n then SW_wait else Idle)\<rparr>"

text \<open>Thread \<open>t\<close> has returned from \<open>start_write\<close> on a fresh lock.\<close>

definition writing_alone :: "tid \<Rightarrow> lock_state" where
  "writing_alone t =
     \<lparr>reader_count = 0, writer_waiting = 1, read_mutex = None, write_mutex = Some t,
      pcs = (\<lambda>_. Idle)(t := Writing)\<rparr>"

text \<open>Thread 0 has returned from \<open>start_write\<close>, thread 1 from \<open>start_read\<close>.\<close>

definition reader_beside_writer :: lock_state where
  "reader_beside_writer =
     \<lparr>reader_count = 1, writer_waiting = 1, read_mutex = None, write_mutex = Some 0,
      pcs = (\<lambda>_. Idle)(0 := Writing, 1 := Reading)\<rparr>"

text \<open>
  Thread 0 is inside as a reader and thread 1 has called \<open>start_write\<close>: the writer
  announces itself and goes to sleep, the reader leaves, the writer wakes and returns.
\<close>

definition reader_leaves_writer_enters :: "(tid \<times> act) list" where
  "reader_leaves_writer_enters =
     [(1, Exec), (1, Exec), (1, Exec), (1, Exec), (1, Exec)] @ end_read_alone 0
     @ [(1, Exec), (1, Exec), (1, Exec)]"

definition reader_leaves_writer_enters_effects :: "(tid \<times> effect) list" where
  "reader_leaves_writer_enters_effects =
     [(1, Lock Write_mutex), (1, Incr Writer_waiting), (1, Readers_positive True),
      (1, Readers_drained False), (1, Block Waiting_to_write)]
     @ map (Pair 0) end_read_effects
     @ [(1, Lock Write_mutex), (1, Readers_drained True), (1, Detach)]"

text \<open>
  Thread 0 holds write admission and thread 1 has called \<open>start_write\<close>: thread 0 runs
  \<open>end_write\<close>, then thread 1 gets through \<open>start_write\<close>.
\<close>

definition writer_hands_over :: "(tid \<times> act) list" where
  "writer_hands_over = end_write_alone 0 @ [(1, Exec), (1, Exec), (1, Exec), (1, Exec)]"

definition writer_hands_over_effects :: "(tid \<times> effect) list" where
  "writer_hands_over_effects =
     map (Pair 0) end_write_effects
     @ [(1, Lock Write_mutex), (1, Incr Writer_waiting), (1, Readers_positive False), (1, Detach)]"

text \<open>
  Thread 0 has returned from \<open>start_write\<close> while thread 1 sleeps on \<open>waiting_to_read\<close>,
  thread 2 sleeps on \<open>waiting_to_write\<close> and thread 3 is between the two statements of
  \<open>end_read\<close>; and a schedule that leads there from the fresh lock. Thread 1 passes
  line 47 before thread 2 announces itself and runs the predicate of line 49 after;
  thread 2 finds thread 3 inside; thread 0 comes when thread 3 has decremented the count.
\<close>

definition end_write_scene :: lock_state where
  "end_write_scene =
     \<lparr>reader_count = 0, writer_waiting = 2, read_mutex = None, write_mutex = Some 0,
      pcs = (\<lambda>_. Idle)(0 := Writing, 1 := SR_wait, 2 := SW_wait, 3 := ER_notify)\<rparr>"

definition end_write_scene_schedule :: "(tid \<times> act) list" where
  "end_write_scene_schedule =
     [(1, Begin Start_read), (1, Exec)] @ start_read_alone 3 @ start_write_blocked 2
     @ [(1, Exec), (1, Exec), (1, Exec), (3, Begin End_read), (3, Exec)]
     @ start_write_alone 0"

text \<open>
  Threads \<open>0, \<dots>, 2^31 - 1\<close> have returned from \<open>start_read\<close> and thread \<open>2^31\<close> from
  \<open>start_write\<close>.
\<close>

definition writer_among_readers :: lock_state where
  "writer_among_readers =
     \<lparr>reader_count = of_nat (2 ^ 31), writer_waiting = 1, read_mutex = None,
      write_mutex = Some (2 ^ 31),
      pcs = (\<lambda>t. if t < 2 ^ 31 then Reading else if t = 2 ^ 31 then Writing else Idle)\<rparr>"

section \<open>Steps, executions and invariants\<close>

subsection \<open>Steps\<close>

lemma goto_simps [simp]:
  "pcs (goto t p s) = (pcs s)(t := p)"
  "reader_count (goto t p s) = reader_count s"
  "writer_waiting (goto t p s) = writer_waiting s"
  "read_mutex (goto t p s) = read_mutex s"
  "write_mutex (goto t p s) = write_mutex s"
  by (simp_all add: goto_def)

lemma notify_all_simps:
  "notify_all Waiting_to_read p u = (if p u = SR_wait then SR_relock else p u)"
  "notify_all Waiting_to_write p u = (if p u = SW_wait then SW_relock else p u)"
  by (simp_all add: notify_all_def)

lemma writer_test_eq [simp]: "writer_is_not_writing ww = (ww = 0, ww)"
  by (auto simp: writer_is_not_writing_def compare_exchange_strong_def NOT_WRITING_def)

lemma differs_eq [simp]: "differs_from_NOT_WRITING b = b"
  by (simp add: differs_from_NOT_WRITING_def NOT_WRITING_def)

text \<open>Every step is one of the twenty-six statements of the four operations.\<close>

lemma step_cases [consumes 1, case_names begin_read begin_write begin_end_read begin_end_write
    sr_check sr_lock sr_pred sr_block sr_wake sr_relock sr_unlock sr_inc er_dec er_notify
    sw_lock sw_inc sw_check sw_pred sw_block sw_wake sw_relock sw_release
    ew_dec ew_notify_write ew_unlock ew_notify_read]:
  assumes "step t a s = Some (e, s')"
  obtains
    "pcs s t = Idle" "a = Begin Start_read" "e = Call Start_read" "s' = goto t SR_check s"
  | "pcs s t = Idle" "a = Begin Start_write" "e = Call Start_write" "s' = goto t SW_lock s"
  | "pcs s t = Reading" "a = Begin End_read" "e = Call End_read" "s' = goto t ER_dec s"
  | "pcs s t = Writing" "a = Begin End_write" "e = Call End_write" "s' = goto t EW_dec s"
  | "pcs s t = SR_check" "a = Exec" "e = Writer_test (writer_waiting s = 0)"
      "s' = goto t (if writer_waiting s = 0 then SR_lock else SR_inc) s"
  | "pcs s t = SR_lock" "a = Exec" "read_mutex s = None" "e = Lock Read_mutex"
      "s' = goto t SR_pred (s\<lparr>read_mutex := Some t\<rparr>)"
  | "pcs s t = SR_pred" "a = Exec" "e = Writer_test (writer_waiting s = 0)"
      "s' = goto t (if writer_waiting s = 0 then SR_unlock else SR_block) s"
  | "pcs s t = SR_block" "a = Exec" "e = Block Waiting_to_read"
      "s' = goto t SR_wait (s\<lparr>read_mutex := None\<rparr>)"
  | "pcs s t = SR_wait" "a = Spurious" "e = Wakeup" "s' = goto t SR_relock s"
  | "pcs s t = SR_relock" "a = Exec" "read_mutex s = None" "e = Lock Read_mutex"
      "s' = goto t SR_pred (s\<lparr>read_mutex := Some t\<rparr>)"
  | "pcs s t = SR_unlock" "a = Exec" "e = Unlock Read_mutex"
      "s' = goto t SR_inc (s\<lparr>read_mutex := None\<rparr>)"
  | "pcs s t = SR_inc" "a = Exec" "e = Incr Reader_count"
      "s' = goto t Reading (s\<lparr>reader_count := reader_count s + 1\<rparr>)"
  | "pcs s t = ER_dec" "a = Exec" "e = Decr Reader_count"
      "s' = goto t ER_notify (s\<lparr>reader_count := reader_count s - 1\<rparr>)"
  | "pcs s t = ER_notify" "a = Exec" "e = Notify_all Waiting_to_write"
      "s' = goto t Idle (s\<lparr>pcs := notify_all Waiting_to_write (pcs s)\<rparr>)"
  | "pcs s t = SW_lock" "a = Exec" "write_mutex s = None" "e = Lock Write_mutex"
      "s' = goto t SW_inc (s\<lparr>write_mutex := Some t\<rparr>)"
  | "pcs s t = SW_inc" "a = Exec" "e = Incr Writer_waiting"
      "s' = goto t SW_check (s\<lparr>writer_waiting := writer_waiting s + 1\<rparr>)"
  | "pcs s t = SW_check" "a = Exec" "e = Readers_positive (0 <s reader_count s)"
      "s' = goto t (if 0 <s reader_count s then SW_pred else SW_release) s"
  | "pcs s t = SW_pred" "a = Exec" "e = Readers_drained (reader_count s \<le>s 0)"
      "s' = goto t (if reader_count s \<le>s 0 then SW_release else SW_block) s"
  | "pcs s t = SW_block" "a = Exec" "e = Block Waiting_to_write"
      "s' = goto t SW_wait (s\<lparr>write_mutex := None\<rparr>)"
  | "pcs s t = SW_wait" "a = Spurious" "e = Wakeup" "s' = goto t SW_relock s"
  | "pcs s t = SW_relock" "a = Exec" "write_mutex s = None" "e = Lock Write_mutex"
      "s' = goto t SW_pred (s\<lparr>write_mutex := Some t\<rparr>)"
  | "pcs s t = SW_release" "a = Exec" "e = Detach" "s' = goto t Writing s"
  | "pcs s t = EW_dec" "a = Exec" "e = Decr Writer_waiting"
      "s' = goto t EW_notify_write (s\<lparr>writer_waiting := writer_waiting s - 1\<rparr>)"
  | "pcs s t = EW_notify_write" "a = Exec" "e = Notify_all Waiting_to_write"
      "s' = goto t EW_unlock (s\<lparr>pcs := notify_all Waiting_to_write (pcs s)\<rparr>)"
  | "pcs s t = EW_unlock" "a = Exec" "e = Unlock Write_mutex"
      "s' = goto t EW_notify_read (s\<lparr>write_mutex := None\<rparr>)"
  | "pcs s t = EW_notify_read" "a = Exec" "e = Notify_all Waiting_to_read"
      "s' = goto t Idle (s\<lparr>pcs := notify_all Waiting_to_read (pcs s)\<rparr>)"
proof (cases "pcs s t")
  case Idle
  with assms that(1,2) show ?thesis
    by (simp add: step_def split: act.splits opname.splits)
next
  case Reading
  with assms that(3) show ?thesis
    by (simp add: step_def split: act.splits opname.splits)
next
  case Writing
  with assms that(4) show ?thesis
    by (simp add: step_def split: act.splits opname.splits)
next
  case SR_check
  with assms that(5) show ?thesis
    by (simp add: step_def split: act.splits if_splits)
next
  case SR_lock
  with assms that(6) show ?thesis
    by (simp add: step_def split: act.splits if_splits)
next
  case SR_pred
  with assms that(7) show ?thesis
    by (simp add: step_def split: act.splits if_splits)
next
  case SR_block
  with assms that(8) show ?thesis
    by (simp add: step_def split: act.splits)
next
  case SR_wait
  with assms that(9) show ?thesis
    by (simp add: step_def split: act.splits)
next
  case SR_relock
  with assms that(10) show ?thesis
    by (simp add: step_def split: act.splits if_splits)
next
  case SR_unlock
  with assms that(11) show ?thesis
    by (simp add: step_def split: act.splits)
next
  case SR_inc
  with assms that(12) show ?thesis
    by (simp add: step_def split: act.splits)
next
  case ER_dec
  with assms that(13) show ?thesis
    by (simp add: step_def split: act.splits)
next
  case ER_notify
  with assms that(14) show ?thesis
    by (simp add: step_def split: act.splits)
next
  case SW_lock
  with assms that(15) show ?thesis
    by (simp add: step_def split: act.splits if_splits)
next
  case SW_inc
  with assms that(16) show ?thesis
    by (simp add: step_def split: act.splits)
next
  case SW_check
  with assms that(17) show ?thesis
    by (simp add: step_def split: act.splits)
next
  case SW_pred
  with assms that(18) show ?thesis
    by (simp add: step_def split: act.splits)
next
  case SW_block
  with assms that(19) show ?thesis
    by (simp add: step_def split: act.splits)
next
  case SW_wait
  with assms that(20) show ?thesis
    by (simp add: step_def split: act.splits)
next
  case SW_relock
  with assms that(21) show ?thesis
    by (simp add: step_def split: act.splits if_splits)
next
  case SW_release
  with assms that(22) show ?thesis
    by (simp add: step_def split: act.splits)
next
  case EW_dec
  with assms that(23) show ?thesis
    by (simp add: step_def split: act.splits)
next
  case EW_notify_write
  with assms that(24) show ?thesis
    by (simp add: step_def split: act.splits)
next
  case EW_unlock
  with assms that(25) show ?thesis
    by (simp add: step_def split: act.splits)
next
  case EW_notify_read
  with assms that(26) show ?thesis
    by (simp add: step_def split: act.splits)
qed

subsection \<open>\<open>write_mutex\<close> is owned by the thread that locked it\<close>

lemma holds_write_mutex_simps [simp]:
  "holds_write_mutex SW_inc" "holds_write_mutex SW_check" "holds_write_mutex SW_pred"
  "holds_write_mutex SW_block" "holds_write_mutex SW_release" "holds_write_mutex Writing"
  "holds_write_mutex EW_dec" "holds_write_mutex EW_notify_write" "holds_write_mutex EW_unlock"
  "\<not> holds_write_mutex Idle" "\<not> holds_write_mutex SR_check" "\<not> holds_write_mutex SR_lock"
  "\<not> holds_write_mutex SR_pred" "\<not> holds_write_mutex SR_block" "\<not> holds_write_mutex SR_wait"
  "\<not> holds_write_mutex SR_relock" "\<not> holds_write_mutex SR_unlock" "\<not> holds_write_mutex SR_inc"
  "\<not> holds_write_mutex Reading" "\<not> holds_write_mutex ER_dec" "\<not> holds_write_mutex ER_notify"
  "\<not> holds_write_mutex SW_lock" "\<not> holds_write_mutex SW_wait" "\<not> holds_write_mutex SW_relock"
  "\<not> holds_write_mutex EW_notify_read"
  by (simp_all add: holds_write_mutex_def)

lemma holds_write_mutex_notify [simp]:
  "holds_write_mutex (notify_all c p u) = holds_write_mutex (p u)"
  by (cases c) (simp_all add: notify_all_simps)

lemma write_mutex_inv_frame:
  assumes "write_mutex_inv s" "write_mutex s' = write_mutex s"
    and "\<And>u. holds_write_mutex (pcs s' u) \<Longrightarrow> holds_write_mutex (pcs s u)"
  shows "write_mutex_inv s'"
  using assms by (simp add: write_mutex_inv_def)

lemma write_mutex_inv_lock:
  assumes "write_mutex_inv s" "write_mutex s = None" "write_mutex s' = Some t"
    and "\<And>u. u \<noteq> t \<Longrightarrow> pcs s' u = pcs s u"
  shows "write_mutex_inv s'"
  unfolding write_mutex_inv_def
proof (intro allI impI)
  fix u assume h: "holds_write_mutex (pcs s' u)"
  show "write_mutex s' = Some u"
  proof (cases "u = t")
    case True
    with assms(3) show ?thesis by simp
  next
    case False
    with h assms(4) have "holds_write_mutex (pcs s u)" by simp
    with assms(1) have "write_mutex s = Some u" by (simp add: write_mutex_inv_def)
    with assms(2) show ?thesis by simp
  qed
qed

lemma write_mutex_inv_unlock:
  assumes "write_mutex_inv s" "holds_write_mutex (pcs s t)" "\<not> holds_write_mutex (pcs s' t)"
    and "\<And>u. u \<noteq> t \<Longrightarrow> pcs s' u = pcs s u"
  shows "write_mutex_inv s'"
  unfolding write_mutex_inv_def
proof (intro allI impI)
  fix u assume h: "holds_write_mutex (pcs s' u)"
  with assms(3) have "u \<noteq> t" by auto
  with h assms(4) have "holds_write_mutex (pcs s u)" by simp
  with assms(1) have "write_mutex s = Some u" by (simp add: write_mutex_inv_def)
  moreover from assms(1,2) have "write_mutex s = Some t" by (simp add: write_mutex_inv_def)
  ultimately show "write_mutex s' = Some u" using \<open>u \<noteq> t\<close> by simp
qed

lemma write_mutex_inv_step:
  assumes "write_mutex_inv s" "step t a s = Some (e, s')"
  shows "write_mutex_inv s'"
  using assms(2)
proof (cases rule: step_cases)
  case sw_block
  then show ?thesis by (intro write_mutex_inv_unlock [OF assms(1), of t]) simp_all
next
  case ew_unlock
  then show ?thesis by (intro write_mutex_inv_unlock [OF assms(1), of t]) simp_all
next
  case sw_lock
  then show ?thesis by (intro write_mutex_inv_lock [OF assms(1), of s' t]) simp_all
next
  case sw_relock
  then show ?thesis by (intro write_mutex_inv_lock [OF assms(1), of s' t]) simp_all
qed (rule write_mutex_inv_frame [OF assms(1)]; simp split: if_splits)+

subsection \<open>\<open>reader_count\<close> counts the readers inside, modulo \<open>2^32\<close>\<close>

lemma counted_simps [simp]:
  "counted Reading" "counted ER_dec"
  "\<not> counted Idle" "\<not> counted SR_check" "\<not> counted SR_lock" "\<not> counted SR_pred"
  "\<not> counted SR_block" "\<not> counted SR_wait" "\<not> counted SR_relock" "\<not> counted SR_unlock"
  "\<not> counted SR_inc" "\<not> counted ER_notify" "\<not> counted SW_lock" "\<not> counted SW_inc"
  "\<not> counted SW_check" "\<not> counted SW_pred" "\<not> counted SW_block" "\<not> counted SW_wait"
  "\<not> counted SW_relock" "\<not> counted SW_release" "\<not> counted Writing" "\<not> counted EW_dec"
  "\<not> counted EW_notify_write" "\<not> counted EW_unlock" "\<not> counted EW_notify_read"
  by (simp_all add: counted_def)

lemma counted_notify [simp]: "counted (notify_all c p u) = counted (p u)"
  by (cases c) (simp_all add: notify_all_simps)

lemma active_readers_enter:
  assumes "\<not> counted (pcs s t)" "counted p" "pcs s' = (pcs s)(t := p)"
  shows "active_readers s' = insert t (active_readers s)" "t \<notin> active_readers s"
  using assms by (auto simp: active_readers_def)

lemma active_readers_leave:
  assumes "counted (pcs s t)" "\<not> counted p" "pcs s' = (pcs s)(t := p)"
  shows "active_readers s' = active_readers s - {t}" "t \<in> active_readers s"
  using assms by (auto simp: active_readers_def)

lemma active_readers_same:
  assumes "\<And>u. counted (pcs s' u) = counted (pcs s u)"
  shows "active_readers s' = active_readers s"
  using assms by (simp add: active_readers_def)

lemma reader_count_inv_frame:
  assumes "reader_count_inv s" "reader_count s' = reader_count s"
    and "\<And>u. counted (pcs s' u) = counted (pcs s u)"
  shows "reader_count_inv s'"
  using assms(1,2) active_readers_same [of s' s, OF assms(3)]
  by (simp add: reader_count_inv_def)

lemma reader_count_inv_step:
  assumes "reader_count_inv s" "step t a s = Some (e, s')"
  shows "reader_count_inv s'"
  using assms(2)
proof (cases rule: step_cases)
  case sr_inc
  have "active_readers s' = insert t (active_readers s)"
    by (rule active_readers_enter(1) [where p = Reading]) (simp_all add: sr_inc)
  moreover have "t \<notin> active_readers s"
    by (simp add: active_readers_def sr_inc)
  ultimately show ?thesis using assms(1) sr_inc
    by (simp add: reader_count_inv_def)
next
  case er_dec
  have A: "active_readers s' = active_readers s - {t}"
    by (rule active_readers_leave(1) [where p = ER_notify]) (simp_all add: er_dec)
  have B: "t \<in> active_readers s"
    by (simp add: active_readers_def er_dec)
  with assms(1) have "0 < card (active_readers s)"
    by (auto simp: reader_count_inv_def card_gt_0_iff)
  with A B assms(1) er_dec show ?thesis
    by (simp add: reader_count_inv_def of_nat_diff)
qed (rule reader_count_inv_frame [OF assms(1)]; simp split: if_splits)+

lemma reachable_inv:
  assumes "reachable s"
  shows "write_mutex_inv s \<and> reader_count_inv s"
  using assms
proof (induction rule: reachable.induct)
  case reachable_init
  show ?case
    by (simp add: init_def write_mutex_inv_def reader_count_inv_def active_readers_def)
next
  case (reachable_step s t a e s')
  then show ?case
    by (auto intro: write_mutex_inv_step reader_count_inv_step)
qed

lemma sint_of_nat_small:
  assumes "n < 2 ^ 31"
  shows "sint (of_nat n :: 32 word) = int n"
  using assms by (simp add: signed_of_nat signed_take_bit_int_eq_self)

subsection \<open>Executions\<close>

lemma run_Cons_Some:
  "run ((t, a) # sched) s = Some (es, s'') \<longleftrightarrow>
     (\<exists>e s' es'. step t a s = Some (e, s') \<and> run sched s' = Some (es', s'') \<and> es = (t, e) # es')"
  by (auto split: option.splits)

lemma reachable_run:
  assumes "reachable s" "run sched s = Some (es, s')"
  shows "reachable s'"
  using assms
proof (induction sched arbitrary: s es)
  case Nil
  then show ?case by simp
next
  case (Cons x sched)
  obtain t a where x: "x = (t, a)" by (cases x)
  from Cons.prems(2) obtain e s1 es1 where
    st: "step t a s = Some (e, s1)" and r: "run sched s1 = Some (es1, s')"
    unfolding x run_Cons_Some by blast
  from Cons.prems(1) st have "reachable s1" by (rule reachable_step)
  then show ?case using r by (rule Cons.IH)
qed

lemma run_append:
  assumes "run xs s = Some (es, s')" "run ys s' = Some (fs, s'')"
  shows "run (xs @ ys) s = Some (es @ fs, s'')"
  using assms
proof (induction xs arbitrary: s es)
  case Nil
  then show ?case by simp
next
  case (Cons x xs)
  obtain t a where x: "x = (t, a)" by (cases x)
  from Cons.prems(1) obtain e s1 es1 where
    st: "step t a s = Some (e, s1)" and r: "run xs s1 = Some (es1, s')" and es: "es = (t, e) # es1"
    unfolding x run_Cons_Some by blast
  from Cons.IH [OF r Cons.prems(2)] st es show ?case by (simp add: x)
qed

lemma run_start_read_alone:
  "run (start_read_alone n) (readers_inside n) =
     Some ([(n, Call Start_read), (n, Writer_test True), (n, Lock Read_mutex),
            (n, Writer_test True), (n, Unlock Read_mutex), (n, Incr Reader_count)],
           readers_inside (Suc n))"
  by (auto simp: start_read_alone_def readers_inside_def step_def goto_def fun_eq_iff)

lemma reachable_readers_inside: "reachable (readers_inside n)"
proof (induction n)
  case 0
  have "readers_inside 0 = init" by (simp add: readers_inside_def init_def)
  then show ?case by (simp add: reachable_init)
next
  case (Suc n)
  then show ?case using run_start_read_alone [of n] by (rule reachable_run)
qed

subsection \<open>Write admission is left by the unlock of \<open>end_write\<close> only\<close>

text \<open>The step of one thread moves another thread only by waking it.\<close>

lemma step_other:
  assumes "step u a s = Some (e, s')" "u \<noteq> t"
  shows "pcs s' t = pcs s t \<or> (pcs s t = SW_wait \<and> pcs s' t = SW_relock)
         \<or> (pcs s t = SR_wait \<and> pcs s' t = SR_relock)"
  using assms(1)
  by (cases rule: step_cases) (use assms(2) in \<open>simp_all add: notify_all_simps\<close>)

lemma write_admitted_holds: "write_admitted p \<Longrightarrow> holds_write_mutex p"
  by (auto simp: write_admitted_def)

lemma write_admitted_other:
  assumes "step u a s = Some (e, s')" "u \<noteq> t" "write_admitted (pcs s t)"
  shows "pcs s' t = pcs s t"
  using step_other [OF assms(1,2)] assms(3) by (auto simp: write_admitted_def)

lemma write_admitted_own:
  assumes "step t a s = Some (e, s')" "write_admitted (pcs s t)"
  shows "write_admitted (pcs s' t) \<or> e = Unlock Write_mutex"
  using assms(1)
  by (cases rule: step_cases) (use assms(2) in \<open>simp_all add: write_admitted_def\<close>)

lemma leave_admission_unlocks:
  assumes "run sched s = Some (es, s')" "write_admitted (pcs s w)" "\<not> write_admitted (pcs s' w)"
  shows "(w, Unlock Write_mutex) \<in> set es"
  using assms
proof (induction sched arbitrary: s es)
  case Nil
  then show ?case by simp
next
  case (Cons x sched)
  obtain u a where x: "x = (u, a)" by (cases x)
  from Cons.prems(1) obtain e s1 es1 where
    st: "step u a s = Some (e, s1)" and r: "run sched s1 = Some (es1, s')" and es: "es = (u, e) # es1"
    unfolding x run_Cons_Some by blast
  show ?case
  proof (cases "write_admitted (pcs s1 w)")
    case True
    from Cons.IH [OF r True Cons.prems(3)] es show ?thesis by simp
  next
    case False
    have "u = w"
    proof (rule ccontr)
      assume "u \<noteq> w"
      from write_admitted_other [OF st this Cons.prems(2)] Cons.prems(2) False
      show False by simp
    qed
    with st Cons.prems(2) False write_admitted_own [of w a s e s1] es show ?thesis by auto
  qed
qed

lemma admitted_unique:
  assumes "reachable s" "write_admitted (pcs s w1)" "write_admitted (pcs s w2)"
  shows "w1 = w2"
proof -
  from assms(1) have "write_mutex_inv s" by (simp add: reachable_inv)
  with assms(2,3) have "write_mutex s = Some w1" "write_mutex s = Some w2"
    by (simp_all add: write_mutex_inv_def write_admitted_holds)
  then show ?thesis by simp
qed

subsection \<open>The effects of a thread in \<open>end_write\<close> and in \<open>start_write\<close>\<close>

lemma effects_of_simps [simp]:
  "effects_of t [] = []"
  "effects_of t ((u, e) # es) = (if u = t then e # effects_of t es else effects_of t es)"
  by (simp_all add: effects_of_def)

lemma end_write_rest_other:
  assumes "step u a s = Some (e, s')" "u \<noteq> t"
  shows "end_write_rest (pcs s' t) = end_write_rest (pcs s t)"
  using step_other [OF assms] by auto

lemma end_write_rest_own:
  assumes "step t a s = Some (e, s')"
  shows "end_write_rest (pcs s t) = [] \<or> end_write_rest (pcs s t) = e # end_write_rest (pcs s' t)"
  using assms
  by (cases rule: step_cases) (simp_all add: end_write_effects_def)

lemma end_write_prefix:
  assumes "run sched s = Some (es, s')"
  shows "take (length (end_write_rest (pcs s t))) (effects_of t es) =
         take (length (effects_of t es)) (end_write_rest (pcs s t))"
  using assms
proof (induction sched arbitrary: s es)
  case Nil
  then show ?case by simp
next
  case (Cons x sched)
  obtain u a where x: "x = (u, a)" by (cases x)
  from Cons.prems(1) obtain e s1 es1 where
    st: "step u a s = Some (e, s1)" and r: "run sched s1 = Some (es1, s')" and es: "es = (u, e) # es1"
    unfolding x run_Cons_Some by blast
  note IH = Cons.IH [OF r]
  show ?case
  proof (cases "u = t")
    case False
    with IH end_write_rest_other [OF st False] es show ?thesis by simp
  next
    case True
    with end_write_rest_own [of t a s e s1] st
    consider "end_write_rest (pcs s t) = []"
      | "end_write_rest (pcs s t) = e # end_write_rest (pcs s1 t)" by blast
    then show ?thesis
    proof cases
      case 1
      then show ?thesis by simp
    next
      case 2
      with IH True es show ?thesis by simp
    qed
  qed
qed

lemma ends_drained_Cons: "ends_drained xs \<Longrightarrow> ends_drained (x # xs)"
  by (auto simp: ends_drained_def split: list.splits)

lemma ends_drained_base [simp]:
  "ends_drained [Readers_positive False, Detach]" "ends_drained [Readers_drained True, Detach]"
  by (simp_all add: ends_drained_def)

lemma start_write_rest_other:
  assumes "step u a s = Some (e, s')" "u \<noteq> t"
  shows "start_write_rest (pcs s' t) = start_write_rest (pcs s t)"
  using step_other [OF assms] by (auto simp: fun_eq_iff)

lemma start_write_rest_own:
  assumes "step t a s = Some (e, s1)" "\<forall>opn. e \<noteq> Call opn" "start_write_rest (pcs s1 t) xs"
  shows "start_write_rest (pcs s t) (e # xs)"
  using assms(1)
  by (cases rule: step_cases)
     (use assms(2,3) in \<open>simp_all add: ends_drained_Cons split: if_splits list.splits\<close>)

lemma start_write_trace:
  assumes "run sched s = Some (es, s')" "pcs s' t = Writing" "\<forall>opn. (t, Call opn) \<notin> set es"
  shows "start_write_rest (pcs s t) (effects_of t es)"
  using assms
proof (induction sched arbitrary: s es)
  case Nil
  then show ?case by simp
next
  case (Cons x sched)
  obtain u a where x: "x = (u, a)" by (cases x)
  from Cons.prems(1) obtain e s1 es1 where
    st: "step u a s = Some (e, s1)" and r: "run sched s1 = Some (es1, s')" and es: "es = (u, e) # es1"
    unfolding x run_Cons_Some by blast
  from Cons.prems(3) es have no: "\<forall>opn. (t, Call opn) \<notin> set es1" by simp
  note IH = Cons.IH [OF r Cons.prems(2) no]
  show ?case
  proof (cases "u = t")
    case False
    with IH start_write_rest_other [OF st False] es show ?thesis by simp
  next
    case True
    from Cons.prems(3) es True have "\<forall>opn. e \<noteq> Call opn" by auto
    from start_write_rest_own [OF st [unfolded True] this IH] es True
    show ?thesis by simp
  qed
qed

subsection \<open>\<open>end_read\<close>, and what the tests of \<open>start_write\<close> find\<close>

lemma drained_is_zero:
  assumes "reachable s" "card (active_readers s) < 2 ^ 31"
  shows "(reader_count s \<le>s 0) = (reader_count s = 0)"
    and "(0 <s reader_count s) = (reader_count s \<noteq> 0)"
proof -
  from assms(1) have "reader_count s = of_nat (card (active_readers s))"
    by (simp add: reachable_inv [unfolded reader_count_inv_def])
  with assms(2) have "sint (reader_count s) = int (card (active_readers s))"
    by (simp add: sint_of_nat_small)
  then have "0 \<le> sint (reader_count s)" by simp
  then show "(reader_count s \<le>s 0) = (reader_count s = 0)"
    and "(0 <s reader_count s) = (reader_count s \<noteq> 0)"
    by (auto simp: word_sle_eq word_sless_alt signed_eq_0_iff order_less_le)
qed

lemma run_end_read_alone:
  assumes "pcs s t = Reading"
  shows "run (end_read_alone t) s =
           Some (map (Pair t) end_read_effects,
                 s\<lparr>reader_count := reader_count s - 1,
                   pcs := (notify_all Waiting_to_write (pcs s))(t := Idle)\<rparr>)"
  using assms
  by (auto simp: end_read_alone_def end_read_effects_def step_def goto_def fun_eq_iff
        notify_all_simps)

subsection \<open>\<open>writer_waiting\<close> counts the pending writers, modulo \<open>2^8\<close>\<close>

lemma pending_simps [simp]:
  "pending SW_check" "pending SW_pred" "pending SW_block" "pending SW_wait" "pending SW_relock"
  "pending SW_release" "pending Writing" "pending EW_dec"
  "\<not> pending Idle" "\<not> pending SR_check" "\<not> pending SR_lock" "\<not> pending SR_pred"
  "\<not> pending SR_block" "\<not> pending SR_wait" "\<not> pending SR_relock" "\<not> pending SR_unlock"
  "\<not> pending SR_inc" "\<not> pending Reading" "\<not> pending ER_dec" "\<not> pending ER_notify"
  "\<not> pending SW_lock" "\<not> pending SW_inc" "\<not> pending EW_notify_write"
  "\<not> pending EW_unlock" "\<not> pending EW_notify_read"
  by (simp_all add: pending_def)

lemma pending_notify [simp]: "pending (notify_all c p u) = pending (p u)"
  by (cases c) (simp_all add: notify_all_simps)

lemma pending_writers_enter:
  assumes "\<not> pending (pcs s t)" "pending p" "pcs s' = (pcs s)(t := p)"
  shows "pending_writers s' = insert t (pending_writers s)"
  using assms by (auto simp: pending_writers_def)

lemma pending_writers_leave:
  assumes "pending (pcs s t)" "\<not> pending p" "pcs s' = (pcs s)(t := p)"
  shows "pending_writers s' = pending_writers s - {t}"
  using assms by (auto simp: pending_writers_def)

lemma writer_waiting_inv_frame:
  assumes "writer_waiting_inv s" "writer_waiting s' = writer_waiting s"
    and "\<And>u. pending (pcs s' u) = pending (pcs s u)"
  shows "writer_waiting_inv s'"
proof -
  from assms(3) have "pending_writers s' = pending_writers s"
    by (simp add: pending_writers_def)
  with assms(1,2) show ?thesis by (simp add: writer_waiting_inv_def)
qed

lemma writer_waiting_inv_step:
  assumes "writer_waiting_inv s" "step t a s = Some (e, s')"
  shows "writer_waiting_inv s'"
  using assms(2)
proof (cases rule: step_cases)
  case sw_inc
  have "pending_writers s' = insert t (pending_writers s)"
    by (rule pending_writers_enter [where p = SW_check]) (simp_all add: sw_inc)
  moreover have "t \<notin> pending_writers s"
    by (simp add: pending_writers_def sw_inc)
  ultimately show ?thesis using assms(1) sw_inc
    by (simp add: writer_waiting_inv_def)
next
  case ew_dec
  have A: "pending_writers s' = pending_writers s - {t}"
    by (rule pending_writers_leave [where p = EW_notify_write]) (simp_all add: ew_dec)
  have B: "t \<in> pending_writers s"
    by (simp add: pending_writers_def ew_dec)
  with assms(1) have "0 < card (pending_writers s)"
    by (auto simp: writer_waiting_inv_def card_gt_0_iff)
  with A B assms(1) ew_dec show ?thesis
    by (simp add: writer_waiting_inv_def of_nat_diff)
qed (rule writer_waiting_inv_frame [OF assms(1)]; simp split: if_splits)+

lemma reachable_writer_waiting_inv:
  assumes "reachable s"
  shows "writer_waiting_inv s"
  using assms
proof (induction rule: reachable.induct)
  case reachable_init
  show ?case
    by (simp add: init_def writer_waiting_inv_def pending_writers_def)
next
  case (reachable_step s t a e s')
  then show ?case
    by (auto intro: writer_waiting_inv_step)
qed

lemma run_start_write_blocked:
  "run (start_write_blocked (Suc n)) (writers_pending n) =
     Some ([(Suc n, Call Start_write), (Suc n, Lock Write_mutex), (Suc n, Incr Writer_waiting),
            (Suc n, Readers_positive True), (Suc n, Readers_drained False),
            (Suc n, Block Waiting_to_write)],
           writers_pending (Suc n))"
  by (auto simp: start_write_blocked_def writers_pending_def step_def goto_def fun_eq_iff
        word_sle_eq word_sless_alt)

lemma reachable_writers_pending: "reachable (writers_pending n)"
proof (induction n)
  case 0
  have "writers_pending 0 = readers_inside 1"
    by (auto simp: writers_pending_def readers_inside_def fun_eq_iff)
  then show ?case by (simp add: reachable_readers_inside)
next
  case (Suc n)
  then show ?case using run_start_write_blocked [of n] by (rule reachable_run)
qed

lemma card_pending_writers: "card (pending_writers (writers_pending n)) = n"
proof -
  have "pending_writers (writers_pending n) = {1..n}"
    by (auto simp: pending_writers_def writers_pending_def)
  then show ?thesis by simp
qed

lemma unat_dec_8:
  fixes w :: "8 word"
  shows "unat (w - 1) = (unat w + 2 ^ 8 - 1) mod 2 ^ 8"
proof -
  have b: "unat w < 256"
    using unsigned_less [of w] by simp
  show ?thesis
  proof (cases "w = 0")
    case True
    then show ?thesis by (simp add: unsigned_minus_1_eq_mask mask_eq_exp_minus_1)
  next
    case False
    then have "unat (w - 1) = unat w - 1" by (rule unat_minus_one)
    moreover from False have "0 < unat w" by (simp add: unat_gt_0)
    ultimately show ?thesis using b by (simp add: mod_if)
  qed
qed

subsection \<open>Runs of one thread on a fresh lock\<close>

lemma run_start_write_alone:
  "run (start_write_alone t) init = Some (map (Pair t) start_write_effects, writing_alone t)"
  by (simp add: start_write_alone_def start_write_effects_def writing_alone_def init_def
        step_def goto_def word_sless_alt)

lemma run_end_write_alone:
  "run (end_write_alone t) (writing_alone t) = Some (map (Pair t) end_write_effects, init)"
  by (auto simp: end_write_alone_def end_write_effects_def writing_alone_def init_def
        step_def goto_def notify_all_simps fun_eq_iff)

lemma run_write_cycle:
  "run (write_cycle t) init =
     Some (map (Pair t) (start_write_effects @ end_write_effects), init)"
  unfolding write_cycle_def map_append
  by (rule run_append [OF run_start_write_alone run_end_write_alone])

lemma run_write_cycles:
  "run (concat (replicate n (write_cycle t))) init =
     Some (concat (replicate n (map (Pair t) (start_write_effects @ end_write_effects))), init)"
proof (induction n)
  case 0
  show ?case by simp
next
  case (Suc n)
  from run_append [OF run_write_cycle Suc] show ?case by simp
qed

lemma reachable_writing_alone: "reachable (writing_alone t)"
  using reachable_init run_start_write_alone by (rule reachable_run)

lemma run_reader_beside_writer:
  "run (start_read_past_writer 1) (writing_alone 0) =
     Some ([(1, Call Start_read), (1, Writer_test False), (1, Incr Reader_count)],
           reader_beside_writer)"
  by (simp add: start_read_past_writer_def step_def goto_def writing_alone_def
        reader_beside_writer_def)

lemma card_active_readers: "card (active_readers (readers_inside n)) = n"
proof -
  have "active_readers (readers_inside n) = {..<n}"
    by (auto simp: active_readers_def readers_inside_def)
  then show ?thesis by simp
qed

lemma reachable_goto_start_write:
  assumes "reachable s" "pcs s t = Idle"
  shows "reachable (goto t SW_lock s)"
proof -
  from assms(2) have "step t (Begin Start_write) s = Some (Call Start_write, goto t SW_lock s)"
    by (simp add: step_def)
  with assms(1) show ?thesis by (rule reachable_step)
qed

lemma run_reader_leaves_writer_enters:
  "run reader_leaves_writer_enters (goto 1 SW_lock (readers_inside 1)) =
     Some (reader_leaves_writer_enters_effects, writing_alone 1)"
  by (auto simp: reader_leaves_writer_enters_def reader_leaves_writer_enters_effects_def
        end_read_alone_def end_read_effects_def readers_inside_def writing_alone_def
        step_def goto_def notify_all_simps fun_eq_iff word_sle_eq word_sless_alt)

lemma run_writer_hands_over:
  "run writer_hands_over (goto 1 SW_lock (writing_alone 0)) =
     Some (writer_hands_over_effects, writing_alone 1)"
  by (auto simp: writer_hands_over_def writer_hands_over_effects_def
        end_write_alone_def end_write_effects_def writing_alone_def
        step_def goto_def notify_all_simps fun_eq_iff word_sle_eq word_sless_alt)

subsection \<open>What the steps of \<open>start_write\<close> and \<open>end_write\<close> do, by their labels\<close>

lemma start_write_labels:
  "step t a x = Some (Lock Write_mutex, x') \<Longrightarrow>
     write_mutex x = None
     \<and> (pcs x t = SW_lock \<or> pcs x t = SW_relock)
     \<and> x' = x\<lparr>write_mutex := Some t,
               pcs := (pcs x)(t := if pcs x t = SW_lock then SW_inc else SW_pred)\<rparr>"
  "step t a x = Some (Incr Writer_waiting, x') \<Longrightarrow>
     pcs x t = SW_inc
     \<and> x' = x\<lparr>writer_waiting := writer_waiting x + 1, pcs := (pcs x)(t := SW_check)\<rparr>"
  "step t a x = Some (Readers_positive b, x') \<Longrightarrow>
     pcs x t = SW_check \<and> b = (0 <s reader_count x)
     \<and> x' = x\<lparr>pcs := (pcs x)(t := if b then SW_pred else SW_release)\<rparr>"
  "step t a x = Some (Readers_drained b, x') \<Longrightarrow>
     pcs x t = SW_pred \<and> b = (reader_count x \<le>s 0)
     \<and> x' = x\<lparr>pcs := (pcs x)(t := if b then SW_release else SW_block)\<rparr>"
  "step t a x = Some (Block Waiting_to_write, x') \<Longrightarrow>
     pcs x t = SW_block
     \<and> x' = x\<lparr>write_mutex := None, pcs := (pcs x)(t := SW_wait)\<rparr>"
  "step t a x = Some (Detach, x') \<Longrightarrow>
     pcs x t = SW_release \<and> x' = x\<lparr>pcs := (pcs x)(t := Writing)\<rparr>"
  by (erule step_cases; auto simp: goto_def)+

lemma end_write_labels:
  "step t a x = Some (Decr Writer_waiting, x') \<Longrightarrow>
     pcs x t = EW_dec
     \<and> x' = x\<lparr>writer_waiting := writer_waiting x - 1, pcs := (pcs x)(t := EW_notify_write)\<rparr>"
  "step t a x = Some (Notify_all Waiting_to_write, x') \<Longrightarrow>
     (pcs x t = EW_notify_write \<or> pcs x t = ER_notify)
     \<and> x' = x\<lparr>pcs := (\<lambda>u. if u = t then (if pcs x t = EW_notify_write then EW_unlock else Idle)
                          else if pcs x u = SW_wait then SW_relock else pcs x u)\<rparr>"
  "step t a x = Some (Unlock Write_mutex, x') \<Longrightarrow>
     pcs x t = EW_unlock
     \<and> x' = x\<lparr>write_mutex := None, pcs := (pcs x)(t := EW_notify_read)\<rparr>"
  "step t a x = Some (Notify_all Waiting_to_read, x') \<Longrightarrow>
     pcs x t = EW_notify_read
     \<and> x' = x\<lparr>pcs := (\<lambda>u. if u = t then Idle
                          else if pcs x u = SR_wait then SR_relock else pcs x u)\<rparr>"
  by (erule step_cases; auto simp: goto_def notify_all_simps fun_eq_iff)+

lemma run_end_write_steps:
  assumes "pcs s t = Writing"
  shows "run (take 2 (end_write_alone t)) s =
           Some (map (Pair t) (take 2 end_write_effects),
                 s\<lparr>writer_waiting := writer_waiting s - 1,
                   pcs := (pcs s)(t := EW_notify_write)\<rparr>)"
    and "run (take 3 (end_write_alone t)) s =
           Some (map (Pair t) (take 3 end_write_effects),
                 s\<lparr>writer_waiting := writer_waiting s - 1,
                   pcs := (\<lambda>u. if u = t then EW_unlock
                               else if pcs s u = SW_wait then SW_relock else pcs s u)\<rparr>)"
    and "run (take 4 (end_write_alone t)) s =
           Some (map (Pair t) (take 4 end_write_effects),
                 s\<lparr>writer_waiting := writer_waiting s - 1, write_mutex := None,
                   pcs := (\<lambda>u. if u = t then EW_notify_read
                               else if pcs s u = SW_wait then SW_relock else pcs s u)\<rparr>)"
    and "run (end_write_alone t) s =
           Some (map (Pair t) end_write_effects,
                 s\<lparr>writer_waiting := writer_waiting s - 1, write_mutex := None,
                   pcs := (\<lambda>u. if u = t then Idle
                               else if pcs s u = SW_wait then SW_relock
                               else if pcs s u = SR_wait then SR_relock else pcs s u)\<rparr>)"
  using assms
  by (auto simp: end_write_alone_def end_write_effects_def step_def goto_def fun_eq_iff
        notify_all_simps)

lemma reachable_end_write_scene: "reachable end_write_scene"
proof -
  have "\<exists>es. run end_write_scene_schedule init = Some (es, end_write_scene)"
    by (auto simp: end_write_scene_schedule_def end_write_scene_def init_def
          start_read_alone_def start_write_blocked_def start_write_alone_def
          step_def goto_def fun_eq_iff word_sle_eq word_sless_alt)
  then show ?thesis using reachable_init by (auto intro: reachable_run)
qed

section \<open>The writer test\<close>

text \<open>
  C9. \<open>writer_is_not_writing\<close> is an atomic load followed by a zero test: the exchange
  with expected = desired = \<open>NOT_WRITING\<close> leaves \<open>writer_waiting\<close> as it was, and the
  function returns true exactly when \<open>writer_waiting\<close> was 0.
\<close>

theorem writer_is_not_writing_is_load:
  "writer_is_not_writing ww = load_and_test_zero ww
   \<and> snd (writer_is_not_writing ww) = ww
   \<and> fst (writer_is_not_writing ww) = (ww = 0)"
  by (auto simp: writer_is_not_writing_def load_and_test_zero_def
        compare_exchange_strong_def NOT_WRITING_def)

theorem writer_is_not_writing_is_load_witness:
  "writer_is_not_writing 3 = load_and_test_zero 3
   \<and> snd (writer_is_not_writing 3) = 3
   \<and> fst (writer_is_not_writing 3) = (3 = (0 :: 8 word))"
  by (rule writer_is_not_writing_is_load)

section \<open>Readers and a pending writer\<close>

text \<open>
  C1 says that a \<open>start_read\<close> that begins while \<open>writer_waiting\<close> is not 0 blocks until
  the writer's \<open>end_write\<close>. The code does the opposite. Line 46 stores the result of
  \<open>writer_is_not_writing()\<close> in the variable \<open>writer_is_writing\<close>, so the variable is
  false when a writer is pending, the condition of line 47 is false, the wait of lines
  48-49 is skipped and line 51 increments \<open>reader_count\<close>: in every state with
  \<open>writer_waiting\<close> not 0, a thread that calls \<open>start_read\<close> returns after two steps of its
  own, none of which can block, whatever the writer does.
\<close>

theorem start_read_passes_pending_writer:
  assumes "writer_waiting s \<noteq> 0" "pcs s t = Idle"
  shows "run (start_read_past_writer t) s =
           Some ([(t, Call Start_read), (t, Writer_test False), (t, Incr Reader_count)],
                 s\<lparr>reader_count := reader_count s + 1, pcs := (pcs s)(t := Reading)\<rparr>)"
  using assms
  by (simp add: start_read_past_writer_def step_def goto_def)

text \<open>
  The failing run: thread 0 has returned from \<open>start_write\<close> on a fresh lock and has
  not called \<open>end_write\<close>; thread 1 calls \<open>start_read\<close> and returns.
\<close>

theorem start_read_passes_pending_writer_witness:
  "writer_waiting (writing_alone 0) \<noteq> 0 \<and> pcs (writing_alone 0) 1 = Idle
   \<and> run (start_read_past_writer 1) (writing_alone 0) =
        Some ([(1, Call Start_read), (1, Writer_test False), (1, Incr Reader_count)],
              (writing_alone 0)\<lparr>reader_count := reader_count (writing_alone 0) + 1,
                                pcs := (pcs (writing_alone 0))(1 := Reading)\<rparr>)"
proof -
  have h1: "writer_waiting (writing_alone 0) \<noteq> 0" by (simp add: writing_alone_def)
  have h2: "pcs (writing_alone 0) 1 = Idle" by (simp add: writing_alone_def)
  show ?thesis
    by (intro conjI h1 h2 start_read_passes_pending_writer [OF h1 h2])
qed

text \<open>
  C2 says that \<open>reader_count > 0\<close> never holds while a thread holds write admission.
  On the code it does: the state in which thread 0 is between the return of its
  \<open>start_write\<close> and its \<open>end_write\<close>, thread 1 has returned from \<open>start_read\<close> and
  \<open>reader_count\<close> is 1 is reachable from the fresh lock.
\<close>

theorem reader_and_writer_overlap:
  "reachable reader_beside_writer
   \<and> pcs reader_beside_writer 0 = Writing \<and> write_admitted (pcs reader_beside_writer 0)
   \<and> pcs reader_beside_writer 1 = Reading
   \<and> 0 <s reader_count reader_beside_writer"
proof -
  have "reachable reader_beside_writer"
    using reachable_writing_alone run_reader_beside_writer by (rule reachable_run)
  then show ?thesis
    by (simp add: reader_beside_writer_def write_admitted_def word_sless_alt)
qed

section \<open>Writers exclude each other\<close>

text \<open>
  C3. At most one thread holds write admission at any instant. In a reachable state
  in which \<open>w1\<close> holds write admission, another thread that is about to lock
  \<open>write_mutex\<close> in \<open>start_write\<close> (at line 68, or coming back from the wait of line 71)
  is blocked; and in every execution from that state to a state in which a thread \<open>w2\<close>
  holds write admission, either \<open>w2\<close> is \<open>w1\<close> or \<open>w1\<close> has unlocked \<open>write_mutex\<close>, which
  only line 84 of its \<open>end_write\<close> does. With the empty execution: two threads that hold
  write admission in the same state are the same thread.
\<close>

theorem write_admission_exclusive:
  assumes "reachable s" "write_admitted (pcs s w1)"
  shows "(w2 \<noteq> w1 \<and> (pcs s w2 = SW_lock \<or> pcs s w2 = SW_relock) \<longrightarrow> step w2 a s = None)
       \<and> (run sched s = Some (es, s') \<and> write_admitted (pcs s' w2)
            \<longrightarrow> w2 = w1 \<or> (w1, Unlock Write_mutex) \<in> set es)"
proof (intro conjI impI)
  assume h: "w2 \<noteq> w1 \<and> (pcs s w2 = SW_lock \<or> pcs s w2 = SW_relock)"
  from assms have "write_mutex s = Some w1"
    by (simp add: reachable_inv [unfolded write_mutex_inv_def, THEN conjunct1] write_admitted_holds)
  with h show "step w2 a s = None"
    by (auto simp: step_def split: act.splits)
next
  assume h: "run sched s = Some (es, s') \<and> write_admitted (pcs s' w2)"
  then have "reachable s'" using assms(1) by (auto intro: reachable_run)
  show "w2 = w1 \<or> (w1, Unlock Write_mutex) \<in> set es"
  proof (cases "write_admitted (pcs s' w1)")
    case True
    with \<open>reachable s'\<close> h show ?thesis by (auto dest: admitted_unique)
  next
    case False
    with h assms(2) show ?thesis by (auto intro: leave_admission_unlocks)
  qed
qed

text \<open>
  Thread 0 holds write admission and thread 1 has called \<open>start_write\<close>: thread 1 cannot
  move; once thread 0 has run \<open>end_write\<close>, thread 1 gets through.
\<close>

theorem write_admission_exclusive_witness:
  "reachable (goto 1 SW_lock (writing_alone 0))
   \<and> write_admitted (pcs (goto 1 SW_lock (writing_alone 0)) 0)
   \<and> pcs (goto 1 SW_lock (writing_alone 0)) 1 = SW_lock
   \<and> step 1 Exec (goto 1 SW_lock (writing_alone 0)) = None
   \<and> run writer_hands_over (goto 1 SW_lock (writing_alone 0)) =
        Some (writer_hands_over_effects, writing_alone 1)
   \<and> write_admitted (pcs (writing_alone 1) 1)
   \<and> (0, Unlock Write_mutex) \<in> set writer_hands_over_effects"
proof -
  let ?s = "goto 1 SW_lock (writing_alone 0)"
  have r: "reachable ?s"
    by (rule reachable_goto_start_write [OF reachable_writing_alone]) (simp add: writing_alone_def)
  have a: "write_admitted (pcs ?s 0)"
    by (simp add: writing_alone_def write_admitted_def)
  have p: "pcs ?s 1 = SW_lock" by simp
  have b: "write_admitted (pcs (writing_alone 1) 1)"
    by (simp add: writing_alone_def write_admitted_def)
  note inst = write_admission_exclusive [OF r a, of 1 Exec writer_hands_over
      writer_hands_over_effects "writing_alone 1"]
  from inst p have c1: "step 1 Exec ?s = None" by simp
  from inst run_writer_hands_over b
  have c2: "(0, Unlock Write_mutex) \<in> set writer_hands_over_effects" by simp
  show ?thesis
    by (intro conjI r a p c1 run_writer_hands_over b c2)
qed

section \<open>A writer announces itself, then waits for the readers\<close>

text \<open>
  C4 says that \<open>start_write\<close> returns only once \<open>reader_count\<close> has drained to zero.
  The tests of lines 70 and 71 are the signed comparisons \<open>reader_count > 0\<close> and
  \<open>reader_count <= 0\<close> on a 32-bit counter that wraps around: with \<open>2^31\<close> readers
  inside, \<open>reader_count\<close> is \<open>- 2^31\<close>, the test of line 70 is false and \<open>start_write\<close>
  runs to its return without waiting, while all the readers are still inside and
  \<open>reader_count\<close> is not zero.
\<close>

theorem start_write_returns_beside_readers:
  "reachable (readers_inside (2 ^ 31))
   \<and> card (active_readers (readers_inside (2 ^ 31))) = 2 ^ 31
   \<and> pcs (readers_inside (2 ^ 31)) (2 ^ 31) = Idle
   \<and> run (start_write_alone (2 ^ 31)) (readers_inside (2 ^ 31)) =
        Some (map (Pair (2 ^ 31)) start_write_effects, writer_among_readers)
   \<and> pcs writer_among_readers (2 ^ 31) = Writing
   \<and> card (active_readers writer_among_readers) = 2 ^ 31
   \<and> reader_count writer_among_readers \<noteq> 0
   \<and> sint (reader_count writer_among_readers) = - (2 ^ 31)"
proof -
  have a: "active_readers writer_among_readers = {t. t < 2 ^ 31}"
    by (auto simp: active_readers_def writer_among_readers_def counted_def)
  have r: "run (start_write_alone (2 ^ 31)) (readers_inside (2 ^ 31)) =
        Some (map (Pair (2 ^ 31)) start_write_effects, writer_among_readers)"
    by (auto simp: start_write_alone_def start_write_effects_def readers_inside_def
          writer_among_readers_def step_def goto_def fun_eq_iff word_sless_alt)
  show ?thesis
    by (intro conjI reachable_readers_inside card_active_readers r)
       (simp_all add: a, simp_all add: readers_inside_def writer_among_readers_def)
qed

text \<open>
  C4, amended. \<open>start_write\<close> locks \<open>write_mutex\<close>, then marks a writer as pending (line
  69 adds 1 to \<open>writer_waiting\<close>) and only afterwards tests \<open>reader_count\<close>; it returns only
  after a test that found \<open>reader_count <= 0\<close>, which is \<open>reader_count = 0\<close> in every
  reachable state with fewer than \<open>2^31\<close> readers inside; readers admitted before can
  finish and decrement the count.

  In every execution that takes a thread from its call of \<open>start_write\<close> to the return,
  whatever the other threads do in between, the effects of the thread are: the lock of
  \<open>write_mutex\<close>, the increment of \<open>writer_waiting\<close>, and then a sequence that ends with a
  test of \<open>reader_count\<close> that found no reader, followed by the \<open>lock.release()\<close> before
  the return. Each of these labels stands for one state change, in every state: a step
  labelled as the lock finds \<open>write_mutex\<close> free and takes it; a step labelled as the
  increment is the step of line 69 and adds 1 to \<open>writer_waiting\<close>, changing nothing else;
  a step labelled as a test carries the value of the signed comparison in that state
  and changes nothing but the place of the thread; a step labelled as the sleep gives
  \<open>write_mutex\<close> up; the step labelled as the release changes nothing but the place of
  the thread, which has then returned. In every state, whatever \<open>writer_waiting\<close> is, a
  thread that has returned from \<open>start_read\<close> runs \<open>end_read\<close> to its end without
  blocking, and the count goes down by one.
\<close>

theorem start_write_marks_then_drains:
  "(pcs s t = SW_lock \<and> run sched s = Some (es, s') \<and> pcs s' t = Writing
      \<and> (\<forall>opn. (t, Call opn) \<notin> set es)
     \<longrightarrow> (\<exists>rest. effects_of t es = Lock Write_mutex # Incr Writer_waiting # rest
                  \<and> ends_drained rest))
   \<and> (step t a x = Some (Lock Write_mutex, x') \<longrightarrow>
        write_mutex x = None
        \<and> (pcs x t = SW_lock \<or> pcs x t = SW_relock)
        \<and> x' = x\<lparr>write_mutex := Some t,
                  pcs := (pcs x)(t := if pcs x t = SW_lock then SW_inc else SW_pred)\<rparr>)
   \<and> (step t a x = Some (Incr Writer_waiting, x') \<longrightarrow>
        pcs x t = SW_inc
        \<and> x' = x\<lparr>writer_waiting := writer_waiting x + 1, pcs := (pcs x)(t := SW_check)\<rparr>)
   \<and> (step t a x = Some (Readers_positive b, x') \<longrightarrow>
        pcs x t = SW_check \<and> b = (0 <s reader_count x)
        \<and> x' = x\<lparr>pcs := (pcs x)(t := if b then SW_pred else SW_release)\<rparr>)
   \<and> (step t a x = Some (Readers_drained b, x') \<longrightarrow>
        pcs x t = SW_pred \<and> b = (reader_count x \<le>s 0)
        \<and> x' = x\<lparr>pcs := (pcs x)(t := if b then SW_release else SW_block)\<rparr>)
   \<and> (step t a x = Some (Block Waiting_to_write, x') \<longrightarrow>
        pcs x t = SW_block
        \<and> x' = x\<lparr>write_mutex := None, pcs := (pcs x)(t := SW_wait)\<rparr>)
   \<and> (step t a x = Some (Detach, x') \<longrightarrow>
        pcs x t = SW_release \<and> x' = x\<lparr>pcs := (pcs x)(t := Writing)\<rparr>)
   \<and> (pcs s u = Reading
     \<longrightarrow> (\<exists>fs s1. run (end_read_alone u) s = Some (fs, s1)
                  \<and> reader_count s1 = reader_count s - 1))
   \<and> (reachable s \<and> card (active_readers s) < 2 ^ 31
     \<longrightarrow> (reader_count s \<le>s 0) = (reader_count s = 0)
         \<and> (0 <s reader_count s) = (reader_count s \<noteq> 0))"
proof -
  have trace: "\<exists>rest. effects_of t es = Lock Write_mutex # Incr Writer_waiting # rest
                  \<and> ends_drained rest"
    if h: "pcs s t = SW_lock \<and> run sched s = Some (es, s') \<and> pcs s' t = Writing
      \<and> (\<forall>opn. (t, Call opn) \<notin> set es)"
  proof -
    from h have "start_write_rest (pcs s t) (effects_of t es)"
      by (intro start_write_trace [of sched s es s']) simp_all
    with h show ?thesis by (auto split: list.splits)
  qed
  have readers: "\<exists>fs s1. run (end_read_alone u) s = Some (fs, s1)
                  \<and> reader_count s1 = reader_count s - 1"
    if "pcs s u = Reading"
    using run_end_read_alone [OF that] by simp
  have zero: "(reader_count s \<le>s 0) = (reader_count s = 0)
         \<and> (0 <s reader_count s) = (reader_count s \<noteq> 0)"
    if "reachable s \<and> card (active_readers s) < 2 ^ 31"
    using that by (simp add: drained_is_zero)
  show ?thesis
    using trace readers zero
    by (intro conjI impI) (blast dest: start_write_labels)+
qed

text \<open>
  A reader is inside when the writer calls \<open>start_write\<close>: the writer announces itself,
  finds the reader and sleeps; the reader leaves; the writer wakes, finds no reader and
  returns. The steps of lines 69, 70, 71 and 73 on the way, with the states they lead to.
\<close>

theorem start_write_marks_then_drains_witness:
  "pcs (goto 1 SW_lock (readers_inside 1)) 1 = SW_lock
   \<and> run reader_leaves_writer_enters (goto 1 SW_lock (readers_inside 1)) =
        Some (reader_leaves_writer_enters_effects, writing_alone 1)
   \<and> pcs (writing_alone 1) 1 = Writing
   \<and> (\<exists>rest. effects_of 1 reader_leaves_writer_enters_effects =
                Lock Write_mutex # Incr Writer_waiting # rest \<and> ends_drained rest)
   \<and> step 1 Exec (goto 1 SW_inc ((readers_inside 1)\<lparr>write_mutex := Some 1\<rparr>)) =
        Some (Incr Writer_waiting,
              (goto 1 SW_inc ((readers_inside 1)\<lparr>write_mutex := Some 1\<rparr>))
                \<lparr>writer_waiting :=
                   writer_waiting (goto 1 SW_inc ((readers_inside 1)\<lparr>write_mutex := Some 1\<rparr>)) + 1,
                 pcs := (pcs (goto 1 SW_inc ((readers_inside 1)\<lparr>write_mutex := Some 1\<rparr>)))
                          (1 := SW_check)\<rparr>)
   \<and> step 1 Exec (goto 1 SW_check ((readers_inside 1)\<lparr>writer_waiting := 1, write_mutex := Some 1\<rparr>)) =
        Some (Readers_positive True,
              (goto 1 SW_check ((readers_inside 1)\<lparr>writer_waiting := 1, write_mutex := Some 1\<rparr>))
                \<lparr>pcs := (pcs (goto 1 SW_check
                                 ((readers_inside 1)\<lparr>writer_waiting := 1, write_mutex := Some 1\<rparr>)))
                          (1 := SW_pred)\<rparr>)
   \<and> step 1 Exec (goto 1 SW_pred ((readers_inside 0)\<lparr>writer_waiting := 1, write_mutex := Some 1\<rparr>)) =
        Some (Readers_drained True,
              (goto 1 SW_pred ((readers_inside 0)\<lparr>writer_waiting := 1, write_mutex := Some 1\<rparr>))
                \<lparr>pcs := (pcs (goto 1 SW_pred
                                 ((readers_inside 0)\<lparr>writer_waiting := 1, write_mutex := Some 1\<rparr>)))
                          (1 := SW_release)\<rparr>)
   \<and> step 1 Exec (goto 1 SW_release ((readers_inside 0)\<lparr>writer_waiting := 1, write_mutex := Some 1\<rparr>)) =
        Some (Detach,
              (goto 1 SW_release ((readers_inside 0)\<lparr>writer_waiting := 1, write_mutex := Some 1\<rparr>))
                \<lparr>pcs := (pcs (goto 1 SW_release
                                 ((readers_inside 0)\<lparr>writer_waiting := 1, write_mutex := Some 1\<rparr>)))
                          (1 := Writing)\<rparr>)
   \<and> pcs (goto 1 SW_lock (readers_inside 1)) 0 = Reading
   \<and> (\<exists>fs s1. run (end_read_alone 0) (goto 1 SW_lock (readers_inside 1)) = Some (fs, s1)
         \<and> reader_count s1 = reader_count (goto 1 SW_lock (readers_inside 1)) - 1)
   \<and> reachable (goto 1 SW_lock (readers_inside 1))
   \<and> card (active_readers (goto 1 SW_lock (readers_inside 1))) < 2 ^ 31
   \<and> (reader_count (goto 1 SW_lock (readers_inside 1)) \<le>s 0) =
       (reader_count (goto 1 SW_lock (readers_inside 1)) = 0)"
proof -
  let ?s = "goto 1 SW_lock (readers_inside 1)"
  let ?A = "goto 1 SW_inc ((readers_inside 1)\<lparr>write_mutex := Some 1\<rparr>)"
  let ?B = "goto 1 SW_check ((readers_inside 1)\<lparr>writer_waiting := 1, write_mutex := Some 1\<rparr>)"
  let ?C = "goto 1 SW_pred ((readers_inside 0)\<lparr>writer_waiting := 1, write_mutex := Some 1\<rparr>)"
  let ?D = "goto 1 SW_release ((readers_inside 0)\<lparr>writer_waiting := 1, write_mutex := Some 1\<rparr>)"
  have p1: "pcs ?s 1 = SW_lock" by simp
  have p0: "pcs ?s 0 = Reading" by (simp add: readers_inside_def)
  have w: "pcs (writing_alone 1) 1 = Writing" by (simp add: writing_alone_def)
  have nc: "\<forall>opn. (1, Call opn) \<notin> set reader_leaves_writer_enters_effects"
    by (simp add: reader_leaves_writer_enters_effects_def end_read_effects_def)
  have r: "reachable ?s"
    by (rule reachable_goto_start_write [OF reachable_readers_inside])
       (simp add: readers_inside_def)
  have "active_readers ?s = {0}"
    by (auto simp: active_readers_def readers_inside_def counted_def)
  then have c: "card (active_readers ?s) < 2 ^ 31" by simp
  have h1: "pcs ?s 1 = SW_lock
      \<and> run reader_leaves_writer_enters ?s =
          Some (reader_leaves_writer_enters_effects, writing_alone 1)
      \<and> pcs (writing_alone 1) 1 = Writing
      \<and> (\<forall>opn. (1, Call opn) \<notin> set reader_leaves_writer_enters_effects)"
    by (intro conjI p1 run_reader_leaves_writer_enters w nc)
  note c1 = start_write_marks_then_drains [where s = ?s and t = 1
      and sched = reader_leaves_writer_enters and es = reader_leaves_writer_enters_effects
      and s' = "writing_alone 1", THEN conjunct1, THEN mp, OF h1]
  have sA: "step 1 Exec ?A =
      Some (Incr Writer_waiting, goto 1 SW_check (?A\<lparr>writer_waiting := writer_waiting ?A + 1\<rparr>))"
    by (simp add: step_def)
  note lA = start_write_marks_then_drains [where t = 1 and a = Exec and x = ?A,
      THEN conjunct2, THEN conjunct2, THEN conjunct1, THEN mp, OF sA, THEN conjunct2]
  have sB: "step 1 Exec ?B = Some (Readers_positive True, goto 1 SW_pred ?B)"
    by (simp add: step_def readers_inside_def word_sless_alt)
  note lB = start_write_marks_then_drains [where t = 1 and a = Exec and x = ?B,
      THEN conjunct2, THEN conjunct2, THEN conjunct2, THEN conjunct1, THEN mp, OF sB,
      THEN conjunct2, THEN conjunct2]
  have sC: "step 1 Exec ?C = Some (Readers_drained True, goto 1 SW_release ?C)"
    by (simp add: step_def readers_inside_def word_sle_eq)
  note lC = start_write_marks_then_drains [where t = 1 and a = Exec and x = ?C,
      THEN conjunct2, THEN conjunct2, THEN conjunct2, THEN conjunct2, THEN conjunct1, THEN mp,
      OF sC, THEN conjunct2, THEN conjunct2]
  have sD: "step 1 Exec ?D = Some (Detach, goto 1 Writing ?D)"
    by (simp add: step_def)
  note lD = start_write_marks_then_drains [where t = 1 and a = Exec and x = ?D,
      THEN conjunct2, THEN conjunct2, THEN conjunct2, THEN conjunct2, THEN conjunct2,
      THEN conjunct2, THEN conjunct1, THEN mp, OF sD, THEN conjunct2]
  note c2 = start_write_marks_then_drains [where s = ?s and u = 0,
      THEN conjunct2, THEN conjunct2, THEN conjunct2, THEN conjunct2, THEN conjunct2,
      THEN conjunct2, THEN conjunct2, THEN conjunct1, THEN mp, OF p0]
  have rc: "reachable ?s \<and> card (active_readers ?s) < 2 ^ 31" by (intro conjI r c)
  note c3 = start_write_marks_then_drains [where s = ?s,
      THEN conjunct2, THEN conjunct2, THEN conjunct2, THEN conjunct2, THEN conjunct2,
      THEN conjunct2, THEN conjunct2, THEN conjunct2, THEN mp, OF rc, THEN conjunct1]
  show ?thesis
    by (intro conjI p1 run_reader_leaves_writer_enters w c1 sA [unfolded lA] sB [unfolded lB [unfolded if_True]]
          sC [unfolded lC [unfolded if_True]] sD [unfolded lD] p0 c2 r c c3)
qed

section \<open>Write cycles of one thread\<close>

text \<open>
  C5. For every \<open>n\<close>, one thread that runs \<open>n\<close> cycles of \<open>start_write\<close> and \<open>end_write\<close>
  on a freshly constructed lock, with no other thread, leaves the lock in its initial
  state: \<open>writer_waiting\<close> and \<open>reader_count\<close> are 0 as at construction. In each cycle
  \<open>start_write\<close> increments \<open>writer_waiting\<close> once, from 0 to 1, and \<open>end_write\<close> decrements
  it once, from 1 to 0.
\<close>

theorem write_cycles_restore:
  "run (concat (replicate n (write_cycle t))) init =
     Some (concat (replicate n (map (Pair t) (start_write_effects @ end_write_effects))), init)
   \<and> writer_waiting init = 0 \<and> reader_count init = 0
   \<and> run (start_write_alone t) init = Some (map (Pair t) start_write_effects, writing_alone t)
   \<and> writer_waiting (writing_alone t) = writer_waiting init + 1
   \<and> reader_count (writing_alone t) = 0
   \<and> run (end_write_alone t) (writing_alone t) = Some (map (Pair t) end_write_effects, init)
   \<and> writer_waiting init = writer_waiting (writing_alone t) - 1"
  by (simp add: run_write_cycles run_start_write_alone run_end_write_alone)
     (simp add: init_def writing_alone_def)

theorem write_cycles_restore_witness:
  "run (concat (replicate 3 (write_cycle 0))) init =
     Some (concat (replicate 3 (map (Pair 0) (start_write_effects @ end_write_effects))), init)
   \<and> writer_waiting init = 0 \<and> reader_count init = 0
   \<and> run (start_write_alone 0) init = Some (map (Pair 0) start_write_effects, writing_alone 0)
   \<and> writer_waiting (writing_alone 0) = writer_waiting init + 1
   \<and> reader_count (writing_alone 0) = 0
   \<and> run (end_write_alone 0) (writing_alone 0) = Some (map (Pair 0) end_write_effects, init)
   \<and> writer_waiting init = writer_waiting (writing_alone 0) - 1"
  by (rule write_cycles_restore)

section \<open>The order of \<open>end_write\<close>\<close>

text \<open>
  C6. \<open>end_write\<close> decrements the pending-writer marker, then wakes the writers (it
  notifies \<open>waiting_to_write\<close> and unlocks \<open>write_mutex\<close>), and only then wakes the readers
  asleep on \<open>waiting_to_read\<close>.

  In every execution from a state in which a thread has returned from \<open>start_write\<close>,
  whatever the other threads do in between, the first effects of the thread are a
  prefix of: the call of \<open>end_write\<close>, the decrement of \<open>writer_waiting\<close>, \<open>notify_all\<close> on
  \<open>waiting_to_write\<close>, the unlock of \<open>write_mutex\<close>, \<open>notify_all\<close> on \<open>waiting_to_read\<close>.

  Run without interruption, no step of \<open>end_write\<close> can block, and the states it goes
  through are: after line 82, \<open>writer_waiting\<close> is one less and every other thread is
  where it was; after line 83, the threads that slept on \<open>waiting_to_write\<close> are awake,
  those that sleep on \<open>waiting_to_read\<close> still sleep and \<open>write_mutex\<close> is still held;
  after line 84, \<open>write_mutex\<close> is free and the readers still sleep; after line 85, the
  threads that slept on \<open>waiting_to_read\<close> are awake.

  Each label stands for one state change, in every state: the decrement subtracts 1
  from \<open>writer_waiting\<close> and moves nobody else; \<open>notify_all\<close> on \<open>waiting_to_write\<close> wakes
  exactly the threads asleep on \<open>waiting_to_write\<close>; the unlock frees \<open>write_mutex\<close> and
  moves nobody else; \<open>notify_all\<close> on \<open>waiting_to_read\<close> wakes exactly the threads asleep
  on \<open>waiting_to_read\<close>.
\<close>

theorem end_write_order:
  "(pcs s t = Writing \<and> run sched s = Some (es, s') \<longrightarrow>
      take (length end_write_effects) (effects_of t es) =
      take (length (effects_of t es)) end_write_effects)
   \<and> (pcs s t = Writing \<longrightarrow>
        run (take 2 (end_write_alone t)) s =
          Some (map (Pair t) (take 2 end_write_effects),
                s\<lparr>writer_waiting := writer_waiting s - 1,
                  pcs := (pcs s)(t := EW_notify_write)\<rparr>)
      \<and> run (take 3 (end_write_alone t)) s =
          Some (map (Pair t) (take 3 end_write_effects),
                s\<lparr>writer_waiting := writer_waiting s - 1,
                  pcs := (\<lambda>u. if u = t then EW_unlock
                              else if pcs s u = SW_wait then SW_relock else pcs s u)\<rparr>)
      \<and> run (take 4 (end_write_alone t)) s =
          Some (map (Pair t) (take 4 end_write_effects),
                s\<lparr>writer_waiting := writer_waiting s - 1, write_mutex := None,
                  pcs := (\<lambda>u. if u = t then EW_notify_read
                              else if pcs s u = SW_wait then SW_relock else pcs s u)\<rparr>)
      \<and> run (end_write_alone t) s =
          Some (map (Pair t) end_write_effects,
                s\<lparr>writer_waiting := writer_waiting s - 1, write_mutex := None,
                  pcs := (\<lambda>u. if u = t then Idle
                              else if pcs s u = SW_wait then SW_relock
                              else if pcs s u = SR_wait then SR_relock else pcs s u)\<rparr>))
   \<and> (step t a x = Some (Decr Writer_waiting, x') \<longrightarrow>
        pcs x t = EW_dec
        \<and> x' = x\<lparr>writer_waiting := writer_waiting x - 1,
                  pcs := (pcs x)(t := EW_notify_write)\<rparr>)
   \<and> (step t a x = Some (Notify_all Waiting_to_write, x') \<longrightarrow>
        (pcs x t = EW_notify_write \<or> pcs x t = ER_notify)
        \<and> x' = x\<lparr>pcs := (\<lambda>u. if u = t
                               then (if pcs x t = EW_notify_write then EW_unlock else Idle)
                             else if pcs x u = SW_wait then SW_relock else pcs x u)\<rparr>)
   \<and> (step t a x = Some (Unlock Write_mutex, x') \<longrightarrow>
        pcs x t = EW_unlock
        \<and> x' = x\<lparr>write_mutex := None, pcs := (pcs x)(t := EW_notify_read)\<rparr>)
   \<and> (step t a x = Some (Notify_all Waiting_to_read, x') \<longrightarrow>
        pcs x t = EW_notify_read
        \<and> x' = x\<lparr>pcs := (\<lambda>u. if u = t then Idle
                             else if pcs x u = SR_wait then SR_relock else pcs x u)\<rparr>)"
proof -
  have trace: "take (length end_write_effects) (effects_of t es) =
      take (length (effects_of t es)) end_write_effects"
    if "pcs s t = Writing" "run sched s = Some (es, s')"
    using end_write_prefix [OF that(2), of t] that(1) by simp
  show ?thesis
    using trace run_end_write_steps [of s t] end_write_labels [of t a x x']
    by (intro conjI impI) blast+
qed

text \<open>
  Thread 0 holds write admission and thread 1 has called \<open>start_write\<close>: thread 0 runs
  \<open>end_write\<close> and thread 1 gets through \<open>start_write\<close> after it. And \<open>end_write\<close> of
  thread 0 with a reader and a writer asleep: the writer is awake after line 83, the
  reader only after line 85.
\<close>

theorem end_write_order_witness:
  "pcs (goto 1 SW_lock (writing_alone 0)) 0 = Writing
   \<and> run writer_hands_over (goto 1 SW_lock (writing_alone 0)) =
        Some (writer_hands_over_effects, writing_alone 1)
   \<and> take (length end_write_effects) (effects_of 0 writer_hands_over_effects) =
       take (length (effects_of 0 writer_hands_over_effects)) end_write_effects
   \<and> effects_of 0 writer_hands_over_effects = end_write_effects
   \<and> reachable end_write_scene
   \<and> pcs end_write_scene 0 = Writing
   \<and> pcs end_write_scene 1 = SR_wait \<and> pcs end_write_scene 2 = SW_wait
   \<and> run (take 2 (end_write_alone 0)) end_write_scene =
        Some (map (Pair 0) (take 2 end_write_effects),
              \<lparr>reader_count = 0, writer_waiting = 1, read_mutex = None, write_mutex = Some 0,
               pcs = (\<lambda>_. Idle)(0 := EW_notify_write, 1 := SR_wait, 2 := SW_wait,
                                 3 := ER_notify)\<rparr>)
   \<and> run (take 3 (end_write_alone 0)) end_write_scene =
        Some (map (Pair 0) (take 3 end_write_effects),
              \<lparr>reader_count = 0, writer_waiting = 1, read_mutex = None, write_mutex = Some 0,
               pcs = (\<lambda>_. Idle)(0 := EW_unlock, 1 := SR_wait, 2 := SW_relock,
                                 3 := ER_notify)\<rparr>)
   \<and> run (take 4 (end_write_alone 0)) end_write_scene =
        Some (map (Pair 0) (take 4 end_write_effects),
              \<lparr>reader_count = 0, writer_waiting = 1, read_mutex = None, write_mutex = None,
               pcs = (\<lambda>_. Idle)(0 := EW_notify_read, 1 := SR_wait, 2 := SW_relock,
                                 3 := ER_notify)\<rparr>)
   \<and> run (end_write_alone 0) end_write_scene =
        Some (map (Pair 0) end_write_effects,
              \<lparr>reader_count = 0, writer_waiting = 1, read_mutex = None, write_mutex = None,
               pcs = (\<lambda>_. Idle)(0 := Idle, 1 := SR_relock, 2 := SW_relock,
                                 3 := ER_notify)\<rparr>)
   \<and> step 0 Exec (goto 0 EW_notify_write end_write_scene) =
        Some (Notify_all Waiting_to_write,
              \<lparr>reader_count = 0, writer_waiting = 2, read_mutex = None, write_mutex = Some 0,
               pcs = (\<lambda>_. Idle)(0 := EW_unlock, 1 := SR_wait, 2 := SW_relock,
                                 3 := ER_notify)\<rparr>)
   \<and> step 0 Exec (goto 0 EW_notify_read end_write_scene) =
        Some (Notify_all Waiting_to_read,
              \<lparr>reader_count = 0, writer_waiting = 2, read_mutex = None, write_mutex = Some 0,
               pcs = (\<lambda>_. Idle)(0 := Idle, 1 := SR_relock, 2 := SW_wait,
                                 3 := ER_notify)\<rparr>)"
proof -
  let ?h = "goto 1 SW_lock (writing_alone 0)"
  let ?s = "end_write_scene"
  let ?w = "goto 0 EW_notify_write end_write_scene"
  let ?r = "goto 0 EW_notify_read end_write_scene"
  have ph: "pcs ?h 0 = Writing" by (simp add: writing_alone_def)
  have hh: "pcs ?h 0 = Writing
      \<and> run writer_hands_over ?h = Some (writer_hands_over_effects, writing_alone 1)"
    by (intro conjI ph run_writer_hands_over)
  note c = end_write_order [where s = ?h and t = 0 and sched = writer_hands_over
      and es = writer_hands_over_effects and s' = "writing_alone 1",
      THEN conjunct1, THEN mp, OF hh]
  have e: "effects_of 0 writer_hands_over_effects = end_write_effects"
    by (simp add: writer_hands_over_effects_def end_write_effects_def)
  have p0: "pcs ?s 0 = Writing" and p1: "pcs ?s 1 = SR_wait" and p2: "pcs ?s 2 = SW_wait"
    by (simp_all add: end_write_scene_def)
  note seq = end_write_order [where s = ?s and t = 0,
      THEN conjunct2, THEN conjunct1, THEN mp, OF p0]
  have eq2: "?s\<lparr>writer_waiting := writer_waiting ?s - 1,
               pcs := (pcs ?s)(0 := EW_notify_write)\<rparr> =
     \<lparr>reader_count = 0, writer_waiting = 1, read_mutex = None, write_mutex = Some 0,
      pcs = (\<lambda>_. Idle)(0 := EW_notify_write, 1 := SR_wait, 2 := SW_wait, 3 := ER_notify)\<rparr>"
    by (auto simp: end_write_scene_def fun_eq_iff)
  have eq3: "?s\<lparr>writer_waiting := writer_waiting ?s - 1,
               pcs := (\<lambda>u. if u = 0 then EW_unlock
                           else if pcs ?s u = SW_wait then SW_relock else pcs ?s u)\<rparr> =
     \<lparr>reader_count = 0, writer_waiting = 1, read_mutex = None, write_mutex = Some 0,
      pcs = (\<lambda>_. Idle)(0 := EW_unlock, 1 := SR_wait, 2 := SW_relock, 3 := ER_notify)\<rparr>"
    by (auto simp: end_write_scene_def fun_eq_iff)
  have eq4: "?s\<lparr>writer_waiting := writer_waiting ?s - 1, write_mutex := None,
               pcs := (\<lambda>u. if u = 0 then EW_notify_read
                           else if pcs ?s u = SW_wait then SW_relock else pcs ?s u)\<rparr> =
     \<lparr>reader_count = 0, writer_waiting = 1, read_mutex = None, write_mutex = None,
      pcs = (\<lambda>_. Idle)(0 := EW_notify_read, 1 := SR_wait, 2 := SW_relock, 3 := ER_notify)\<rparr>"
    by (auto simp: end_write_scene_def fun_eq_iff)
  have eq5: "?s\<lparr>writer_waiting := writer_waiting ?s - 1, write_mutex := None,
               pcs := (\<lambda>u. if u = 0 then Idle
                           else if pcs ?s u = SW_wait then SW_relock
                           else if pcs ?s u = SR_wait then SR_relock else pcs ?s u)\<rparr> =
     \<lparr>reader_count = 0, writer_waiting = 1, read_mutex = None, write_mutex = None,
      pcs = (\<lambda>_. Idle)(0 := Idle, 1 := SR_relock, 2 := SW_relock, 3 := ER_notify)\<rparr>"
    by (auto simp: end_write_scene_def fun_eq_iff)
  note s2 = seq [THEN conjunct1, unfolded eq2]
    and s3 = seq [THEN conjunct2, THEN conjunct1, unfolded eq3]
    and s4 = seq [THEN conjunct2, THEN conjunct2, THEN conjunct1, unfolded eq4]
    and s5 = seq [THEN conjunct2, THEN conjunct2, THEN conjunct2, unfolded eq5]
  have sw: "step 0 Exec ?w =
      Some (Notify_all Waiting_to_write,
            goto 0 EW_unlock (?w\<lparr>pcs := notify_all Waiting_to_write (pcs ?w)\<rparr>))"
    by (simp add: step_def)
  note lw = end_write_order [where t = 0 and a = Exec and x = ?w,
      THEN conjunct2, THEN conjunct2, THEN conjunct2, THEN conjunct1, THEN mp, OF sw,
      THEN conjunct2]
  have eqw: "?w\<lparr>pcs := (\<lambda>u. if u = 0
                             then (if pcs ?w 0 = EW_notify_write then EW_unlock else Idle)
                           else if pcs ?w u = SW_wait then SW_relock else pcs ?w u)\<rparr> =
     \<lparr>reader_count = 0, writer_waiting = 2, read_mutex = None, write_mutex = Some 0,
      pcs = (\<lambda>_. Idle)(0 := EW_unlock, 1 := SR_wait, 2 := SW_relock, 3 := ER_notify)\<rparr>"
    by (auto simp: end_write_scene_def goto_def fun_eq_iff)
  have sr: "step 0 Exec ?r =
      Some (Notify_all Waiting_to_read,
            goto 0 Idle (?r\<lparr>pcs := notify_all Waiting_to_read (pcs ?r)\<rparr>))"
    by (simp add: step_def)
  note lr = end_write_order [where t = 0 and a = Exec and x = ?r,
      THEN conjunct2, THEN conjunct2, THEN conjunct2, THEN conjunct2, THEN conjunct2, THEN mp,
      OF sr, THEN conjunct2]
  have eqr: "?r\<lparr>pcs := (\<lambda>u. if u = 0 then Idle
                           else if pcs ?r u = SR_wait then SR_relock else pcs ?r u)\<rparr> =
     \<lparr>reader_count = 0, writer_waiting = 2, read_mutex = None, write_mutex = Some 0,
      pcs = (\<lambda>_. Idle)(0 := Idle, 1 := SR_relock, 2 := SW_wait, 3 := ER_notify)\<rparr>"
    by (auto simp: end_write_scene_def goto_def fun_eq_iff)
  show ?thesis
    by (intro conjI ph run_writer_hands_over c e reachable_end_write_scene p0 p1 p2 s2 s3 s4 s5
          sw [unfolded lw eqw] sr [unfolded lr eqr])
qed

section \<open>The reader count\<close>

text \<open>
  C7 says that \<open>reader_count\<close> is never negative when every \<open>end_read\<close> follows a
  \<open>start_read\<close> that returned. \<open>reader_count\<close> is a 32-bit \<open>std::atomic_int\<close> and its
  increment wraps around: with \<open>2^31\<close> readers inside, none of which has called
  \<open>end_read\<close>, it is \<open>- 2^31\<close>.
\<close>

theorem reader_count_negative:
  "reachable (readers_inside (2 ^ 31)) \<and> sint (reader_count (readers_inside (2 ^ 31))) < 0"
  by (simp add: reachable_readers_inside) (simp add: readers_inside_def)

text \<open>
  C7, amended. In every reachable state with fewer than \<open>2^31\<close> readers inside,
  \<open>reader_count\<close> is not negative: it is the number of threads between the increment
  of their \<open>start_read\<close> and the decrement of their \<open>end_read\<close>. The caller contract is
  in the transition system: a thread begins \<open>end_read\<close> only after its \<open>start_read\<close> has
  returned.
\<close>

theorem reader_count_nonneg:
  assumes "reachable s" "card (active_readers s) < 2 ^ 31"
  shows "0 \<le> sint (reader_count s) \<and> sint (reader_count s) = int (card (active_readers s))"
proof -
  from assms(1) have "reader_count s = of_nat (card (active_readers s))"
    by (simp add: reachable_inv [unfolded reader_count_inv_def])
  with assms(2) have "sint (reader_count s) = int (card (active_readers s))"
    by (simp add: sint_of_nat_small)
  then show ?thesis by simp
qed

theorem reader_count_nonneg_witness:
  "reachable (readers_inside 3) \<and> card (active_readers (readers_inside 3)) < 2 ^ 31
   \<and> 0 \<le> sint (reader_count (readers_inside 3))
   \<and> sint (reader_count (readers_inside 3)) = int (card (active_readers (readers_inside 3)))"
proof -
  have r: "reachable (readers_inside 3)" by (rule reachable_readers_inside)
  have c: "card (active_readers (readers_inside 3)) < 2 ^ 31"
    by (simp add: card_active_readers)
  from reader_count_nonneg [OF r c] r c show ?thesis by simp
qed

section \<open>What \<open>end_read\<close> changes\<close>



section \<open>The pending-writer counter is eight bits wide\<close>

text \<open>
  C10. \<open>writer_waiting\<close> is an 8-bit counter, not a boolean: line 69 adds 1 and line 82
  subtracts 1 modulo \<open>2^8\<close>, so in every reachable state it is the number of pending or
  writing writers modulo \<open>2^8\<close>, and \<open>writer_is_not_writing\<close> returns true exactly when
  that number is a multiple of \<open>2^8\<close>. With one reader inside and 128 writers asleep in
  \<open>start_write\<close> the counter, read as a signed \<open>char\<close>, has wrapped to \<open>- 128\<close>; with 256
  writers asleep it is 0 and the test reports that no writer is pending.
\<close>

theorem writer_waiting_wraps:
  "(reachable s \<longrightarrow> unat (writer_waiting s) = card (pending_writers s) mod 2 ^ 8
      \<and> fst (writer_is_not_writing (writer_waiting s)) = (card (pending_writers s) mod 2 ^ 8 = 0))
   \<and> (pcs s t = SW_inc \<and> step t a s = Some (e, s')
        \<longrightarrow> unat (writer_waiting s') = (unat (writer_waiting s) + 1) mod 2 ^ 8)
   \<and> (pcs s t = EW_dec \<and> step t a s = Some (e, s')
        \<longrightarrow> unat (writer_waiting s') = (unat (writer_waiting s) + 2 ^ 8 - 1) mod 2 ^ 8)
   \<and> reachable (writers_pending 128) \<and> card (pending_writers (writers_pending 128)) = 128
   \<and> sint (writer_waiting (writers_pending 128)) = - 128
   \<and> reachable (writers_pending 256) \<and> card (pending_writers (writers_pending 256)) = 256
   \<and> writer_waiting (writers_pending 256) = 0
   \<and> fst (writer_is_not_writing (writer_waiting (writers_pending 256)))"
proof (intro conjI impI)
  assume "reachable s"
  then have w: "writer_waiting s = of_nat (card (pending_writers s))"
    by (simp add: reachable_writer_waiting_inv [unfolded writer_waiting_inv_def])
  then show u: "unat (writer_waiting s) = card (pending_writers s) mod 2 ^ 8"
    by (simp add: unat_of_nat)
  have "(writer_waiting s = 0) = (unat (writer_waiting s) = 0)"
    by (simp add: unat_eq_0)
  with u show "fst (writer_is_not_writing (writer_waiting s)) =
      (card (pending_writers s) mod 2 ^ 8 = 0)"
    by simp
next
  assume "pcs s t = SW_inc \<and> step t a s = Some (e, s')"
  then have "writer_waiting s' = writer_waiting s + 1"
    by (auto simp: step_def split: act.splits)
  then show "unat (writer_waiting s') = (unat (writer_waiting s) + 1) mod 2 ^ 8"
    by (simp add: unat_word_ariths)
next
  assume "pcs s t = EW_dec \<and> step t a s = Some (e, s')"
  then have "writer_waiting s' = writer_waiting s - 1"
    by (auto simp: step_def split: act.splits)
  then show "unat (writer_waiting s') = (unat (writer_waiting s) + 2 ^ 8 - 1) mod 2 ^ 8"
    by (simp only: unat_dec_8)
qed (simp_all add: reachable_writers_pending card_pending_writers, simp_all add: writers_pending_def)

text \<open>
  Three writers asleep: the counter is 3. The increment of line 69 from 0, and the
  decrement of line 82 from 0, which wraps to 255.
\<close>

theorem writer_waiting_wraps_witness:
  "reachable (writers_pending 3)
   \<and> unat (writer_waiting (writers_pending 3)) = card (pending_writers (writers_pending 3)) mod 2 ^ 8
   \<and> fst (writer_is_not_writing (writer_waiting (writers_pending 3))) =
       (card (pending_writers (writers_pending 3)) mod 2 ^ 8 = 0)
   \<and> pcs (goto 0 SW_inc init) 0 = SW_inc
   \<and> step 0 Exec (goto 0 SW_inc init) =
        Some (Incr Writer_waiting,
              goto 0 SW_check ((goto 0 SW_inc init)\<lparr>writer_waiting := 1\<rparr>))
   \<and> unat (writer_waiting (goto 0 SW_check ((goto 0 SW_inc init)\<lparr>writer_waiting := 1\<rparr>))) =
       (unat (writer_waiting (goto 0 SW_inc init)) + 1) mod 2 ^ 8
   \<and> pcs (goto 0 EW_dec init) 0 = EW_dec
   \<and> step 0 Exec (goto 0 EW_dec init) =
        Some (Decr Writer_waiting,
              goto 0 EW_notify_write ((goto 0 EW_dec init)\<lparr>writer_waiting := 255\<rparr>))
   \<and> unat (writer_waiting (goto 0 EW_notify_write ((goto 0 EW_dec init)\<lparr>writer_waiting := 255\<rparr>))) =
       (unat (writer_waiting (goto 0 EW_dec init)) + 2 ^ 8 - 1) mod 2 ^ 8"
proof -
  let ?i = "goto 0 SW_inc init"
  let ?i' = "goto 0 SW_check ((goto 0 SW_inc init)\<lparr>writer_waiting := 1\<rparr>)"
  let ?d = "goto 0 EW_dec init"
  let ?d' = "goto 0 EW_notify_write ((goto 0 EW_dec init)\<lparr>writer_waiting := 255\<rparr>)"
  have r: "reachable (writers_pending 3)" by (rule reachable_writers_pending)
  have pi: "pcs ?i 0 = SW_inc" by simp
  have si: "step 0 Exec ?i = Some (Incr Writer_waiting, ?i')"
    by (simp add: step_def init_def)
  have pd: "pcs ?d 0 = EW_dec" by simp
  have sd: "step 0 Exec ?d = Some (Decr Writer_waiting, ?d')"
    by (simp add: step_def init_def)
  note c12 = writer_waiting_wraps [of "writers_pending 3", THEN conjunct1, THEN mp, OF r]
  note c1 = c12 [THEN conjunct1] and c2 = c12 [THEN conjunct2]
  from writer_waiting_wraps [of ?i 0 Exec "Incr Writer_waiting" ?i'] pi si
  have c3: "unat (writer_waiting ?i') = (unat (writer_waiting ?i) + 1) mod 2 ^ 8"
    by blast
  from writer_waiting_wraps [of ?d 0 Exec "Decr Writer_waiting" ?d'] pd sd
  have c4: "unat (writer_waiting ?d') = (unat (writer_waiting ?d) + 2 ^ 8 - 1) mod 2 ^ 8"
    by blast
  show ?thesis
    by (intro conjI r c1 c2 pi si c3 pd sd c4)
qed

end
